theory Spec2Isabelle
  imports Complex_Main "HOL-Library.Code_Target_Nat"
begin

section \<open>Platform functions used by the ledger\<close>

text \<open>
  JavaScript strings are modelled as \<open>string\<close>, one \<open>char\<close> per code unit, so the model
  covers the code units U+0000 to U+00FF. Numbers are the non-negative integers the ledger
  stores (record positions and millisecond time stamps), modelled as \<open>nat\<close>; the source
  computes with IEEE doubles, which are exact on integers below \<open>2 ^ 53\<close>.
\<close>

definition digit :: "nat \<Rightarrow> char" where
  "digit d = ''0123456789'' ! d"

text \<open>\<open>String(n)\<close> for a non-negative integer: its decimal digits, no leading zero.\<close>

fun Number_toString :: "nat \<Rightarrow> string" where
  "Number_toString n =
     (if n < 10 then [digit n] else Number_toString (n div 10) @ [digit (n mod 10)])"

declare Number_toString.simps [simp del]

text \<open>
  \<open>unescape(encodeURIComponent(s))\<close>: the UTF-8 bytes of \<open>s\<close>, one code unit per byte.
  A code unit below U+0080 is one byte, one from U+0080 to U+00FF is two.
\<close>

definition utf8_char :: "char \<Rightarrow> string" where
  "utf8_char c =
     (if (of_char c :: nat) < 128 then [c]
      else [char_of (192 + (of_char c :: nat) div 64), char_of (128 + (of_char c :: nat) mod 64)])"

definition unescape_encodeURIComponent :: "string \<Rightarrow> string" where
  "unescape_encodeURIComponent s = concat (map utf8_char s)"

definition b64_alphabet :: string where
  "b64_alphabet = ''ABCDEFGHIJKLMNOPQRSTUVWXYZabcdefghijklmnopqrstuvwxyz0123456789+/''"

definition b64 :: "nat \<Rightarrow> char" where
  "b64 n = b64_alphabet ! n"

text \<open>\<open>btoa\<close>: Base64 of a byte string, three bytes to four characters, padded with \<open>=\<close>.\<close>

fun btoa :: "string \<Rightarrow> string" where
  "btoa [] = []"
| "btoa [a] =
     (let x = (of_char a :: nat)
      in [b64 (x div 4), b64 ((x mod 4) * 16), CHR ''='', CHR ''=''])"
| "btoa [a, b] =
     (let x = (of_char a :: nat); y = (of_char b :: nat)
      in [b64 (x div 4), b64 ((x mod 4) * 16 + y div 16), b64 ((y mod 16) * 4), CHR ''=''])"
| "btoa (a # b # c # rest) =
     (let x = (of_char a :: nat); y = (of_char b :: nat); z = (of_char c :: nat)
      in [b64 (x div 4), b64 ((x mod 4) * 16 + y div 16),
          b64 ((y mod 16) * 4 + z div 64), b64 (z mod 64)] @ btoa rest)"

subsection \<open>JSON values and \<open>JSON.stringify\<close>\<close>

datatype json =
    JNull
  | JBool bool
  | JNum nat
  | JStr string
  | JArr "json list"
  | JObj "(string \<times> json) list"

definition hex_digit :: "nat \<Rightarrow> char" where
  "hex_digit d = ''0123456789abcdef'' ! d"

text \<open>
  The quoting of \<open>JSON.stringify\<close>: the short escapes, \<open>\u00XX\<close> for the other control
  characters, every other code unit as it is.
\<close>

definition backslash :: char where
  "backslash = CHR 0x5C"

definition dquote :: char where
  "dquote = CHR 0x22"

definition quote_char :: "char \<Rightarrow> string" where
  "quote_char c =
     (let n = (of_char c :: nat) in
      if n = 8 then [backslash, CHR ''b'']
      else if n = 9 then [backslash, CHR ''t'']
      else if n = 10 then [backslash, CHR ''n'']
      else if n = 12 then [backslash, CHR ''f'']
      else if n = 13 then [backslash, CHR ''r'']
      else if n = 34 then [backslash, dquote]
      else if n = 92 then [backslash, backslash]
      else if n < 32 then
        [backslash, CHR ''u'', CHR ''0'', CHR ''0'', hex_digit (n div 16), hex_digit (n mod 16)]
      else [c])"

definition quote :: "string \<Rightarrow> string" where
  "quote s = [dquote] @ concat (map quote_char s) @ [dquote]"

fun stringify :: "json \<Rightarrow> string"
  and stringify_elements :: "json list \<Rightarrow> string"
  and stringify_members :: "(string \<times> json) list \<Rightarrow> string" where
  "stringify JNull = ''null''"
| "stringify (JBool b) = (if b then ''true'' else ''false'')"
| "stringify (JNum n) = Number_toString n"
| "stringify (JStr s) = quote s"
| "stringify (JArr xs) = ''['' @ stringify_elements xs @ '']''"
| "stringify (JObj kvs) = ''{'' @ stringify_members kvs @ ''}''"
| "stringify_elements [] = []"
| "stringify_elements [x] = stringify x"
| "stringify_elements (x # y # ys) = stringify x @ '','' @ stringify_elements (y # ys)"
| "stringify_members [] = []"
| "stringify_members [(k, v)] = quote k @ '':'' @ stringify v"
| "stringify_members ((k, v) # kv # kvs) =
     quote k @ '':'' @ stringify v @ '','' @ stringify_members (kv # kvs)"

section \<open>Records of the ledger\<close>

record attendance =
  studentId :: string
  status :: string
  date :: string

record Block =
  index :: nat
  timestamp :: nat
  data :: attendance
  previousHash :: string
  hash :: string

definition data_json :: "attendance \<Rightarrow> json" where
  "data_json d =
     JObj [(''studentId'', JStr (studentId d)), (''status'', JStr (status d)),
           (''date'', JStr (date d))]"

text \<open>The string \<open>calculateHash\<close> encodes: the four fields, concatenated.\<close>

definition hash_input :: "Block \<Rightarrow> string" where
  "hash_input b =
     Number_toString (index b) @ previousHash b @ Number_toString (timestamp b)
       @ stringify (data_json (data b))"

definition calculateHash :: "Block \<Rightarrow> string" where
  "calculateHash b = take 64 (btoa (unescape_encodeURIComponent (hash_input b)))"

text \<open>The constructor of \<open>Block\<close>: the fingerprint is computed from the other fields.\<close>

definition new_Block :: "nat \<Rightarrow> nat \<Rightarrow> attendance \<Rightarrow> string \<Rightarrow> Block" where
  "new_Block i t d p =
     (let b = \<lparr>index = i, timestamp = t, data = d, previousHash = p, hash = []\<rparr>
      in b\<lparr>hash := calculateHash b\<rparr>)"


subsection \<open>\<open>JSON.parse\<close>\<close>

text \<open>
  What the operations can raise. \<open>OutsideModel\<close> marks an input on which the JavaScript
  goes on with values the typed records above do not represent (a number that is not
  written as a plain natural number, an escape beyond U+00FF, a record of another shape):
  the model stops there and says nothing about it. \<open>OutOfFuel\<close> is the bound of the
  parser's recursion, which \<open>JSON_parse\<close> never reaches (lemma \<open>JSON_parse_fuel\<close>).
\<close>

datatype error = SyntaxError | TypeError | OutsideModel | OutOfFuel

definition is_ws :: "char \<Rightarrow> bool" where
  "is_ws c = ((of_char c :: nat) \<in> {9, 10, 13, 32})"

definition skip_ws :: "string \<Rightarrow> string" where
  "skip_ws s = dropWhile is_ws s"

definition is_digit :: "char \<Rightarrow> bool" where
  "is_digit c = (48 \<le> (of_char c :: nat) \<and> (of_char c :: nat) \<le> 57)"

definition digits_value :: "string \<Rightarrow> nat" where
  "digits_value ds = foldl (\<lambda>a c. 10 * a + ((of_char c :: nat) - 48)) 0 ds"

definition hex_value :: "char \<Rightarrow> nat option" where
  "hex_value c =
     (let n = (of_char c :: nat) in
      if 48 \<le> n \<and> n \<le> 57 then Some (n - 48)
      else if 97 \<le> n \<and> n \<le> 102 then Some (n - 87)
      else if 65 \<le> n \<and> n \<le> 70 then Some (n - 55)
      else None)"

definition hex4 :: "char \<Rightarrow> char \<Rightarrow> char \<Rightarrow> char \<Rightarrow> nat option" where
  "hex4 a b c d =
     (case (hex_value a, hex_value b, hex_value c, hex_value d) of
        (Some w, Some x, Some y, Some z) \<Rightarrow> Some (4096 * w + 256 * x + 16 * y + z)
      | _ \<Rightarrow> None)"

definition simple_escape :: "char \<Rightarrow> char option" where
  "simple_escape e =
     (if e = dquote then Some dquote
      else if e = backslash then Some backslash
      else if e = CHR ''/'' then Some (CHR ''/'')
      else if e = CHR ''b'' then Some (CHR 0x08)
      else if e = CHR ''f'' then Some (CHR 0x0C)
      else if e = CHR ''n'' then Some (CHR 0x0A)
      else if e = CHR ''r'' then Some (CHR 0x0D)
      else if e = CHR ''t'' then Some (CHR 0x09)
      else None)"

text \<open>The characters of a string literal, after its opening quote.\<close>

fun parse_chars :: "string \<Rightarrow> error + (string \<times> string)" where
  "parse_chars [] = Inl SyntaxError"
| "parse_chars (c # cs) =
     (if c = dquote then Inr ([], cs)
      else if c = backslash then
        (if cs = [] then Inl SyntaxError
         else if hd cs = CHR ''u'' then
           (if length cs < 5 then Inl SyntaxError
            else (case hex4 (cs ! 1) (cs ! 2) (cs ! 3) (cs ! 4) of
                    None \<Rightarrow> Inl SyntaxError
                  | Some n \<Rightarrow>
                      if n < 256 then
                        (case parse_chars (drop 5 cs) of
                           Inl e \<Rightarrow> Inl e
                         | Inr (s, r) \<Rightarrow> Inr (char_of n # s, r))
                      else Inl OutsideModel))
         else (case simple_escape (hd cs) of
                 None \<Rightarrow> Inl SyntaxError
               | Some x \<Rightarrow>
                   (case parse_chars (tl cs) of
                      Inl e \<Rightarrow> Inl e
                    | Inr (s, r) \<Rightarrow> Inr (x # s, r))))
      else if (of_char c :: nat) < 32 then Inl SyntaxError
      else (case parse_chars cs of
              Inl e \<Rightarrow> Inl e
            | Inr (s, r) \<Rightarrow> Inr (c # s, r)))"

text \<open>A number that starts with the digit \<open>c\<close>: a plain natural number, or outside the model.\<close>

definition parse_number :: "char \<Rightarrow> string \<Rightarrow> error + (json \<times> string)" where
  "parse_number c cs =
     (let ds = (if c = CHR ''0'' then [c] else c # takeWhile is_digit cs);
          r = (if c = CHR ''0'' then cs else dropWhile is_digit cs)
      in if r \<noteq> [] \<and> hd r \<in> {CHR ''.'', CHR ''e'', CHR ''E''} then Inl OutsideModel
         else Inr (JNum (digits_value ds), r))"

definition parse_literal :: "string \<Rightarrow> error + (json \<times> string)" where
  "parse_literal s =
     (if take 4 s = ''true'' then Inr (JBool True, drop 4 s)
      else if take 5 s = ''false'' then Inr (JBool False, drop 5 s)
      else if take 4 s = ''null'' then Inr (JNull, drop 4 s)
      else Inl SyntaxError)"

fun parse_value :: "nat \<Rightarrow> string \<Rightarrow> error + (json \<times> string)"
  and parse_elements :: "nat \<Rightarrow> string \<Rightarrow> error + (json list \<times> string)"
  and parse_members :: "nat \<Rightarrow> string \<Rightarrow> error + ((string \<times> json) list \<times> string)" where
  "parse_value 0 s = Inl OutOfFuel"
| "parse_value (Suc n) s =
     (case skip_ws s of
        [] \<Rightarrow> Inl SyntaxError
      | c # cs \<Rightarrow>
          if c = CHR ''['' then
            (if skip_ws cs \<noteq> [] \<and> hd (skip_ws cs) = CHR '']''
             then Inr (JArr [], tl (skip_ws cs))
             else (case parse_elements n cs of
                     Inl e \<Rightarrow> Inl e
                   | Inr (xs, r) \<Rightarrow> Inr (JArr xs, r)))
          else if c = CHR ''{'' then
            (if skip_ws cs \<noteq> [] \<and> hd (skip_ws cs) = CHR ''}''
             then Inr (JObj [], tl (skip_ws cs))
             else (case parse_members n cs of
                     Inl e \<Rightarrow> Inl e
                   | Inr (kvs, r) \<Rightarrow> Inr (JObj kvs, r)))
          else if c = dquote then
            (case parse_chars cs of
               Inl e \<Rightarrow> Inl e
             | Inr (str, r) \<Rightarrow> Inr (JStr str, r))
          else if is_digit c then parse_number c cs
          else if c = CHR ''-'' then
            (if cs \<noteq> [] \<and> is_digit (hd cs) then Inl OutsideModel else Inl SyntaxError)
          else parse_literal (c # cs))"
| "parse_elements 0 s = Inl OutOfFuel"
| "parse_elements (Suc n) s =
     (case parse_value n s of
        Inl e \<Rightarrow> Inl e
      | Inr (v, r) \<Rightarrow>
          (case skip_ws r of
             [] \<Rightarrow> Inl SyntaxError
           | c # cs \<Rightarrow>
               if c = CHR '','' then
                 (case parse_elements n cs of
                    Inl e \<Rightarrow> Inl e
                  | Inr (vs, r') \<Rightarrow> Inr (v # vs, r'))
               else if c = CHR '']'' then Inr ([v], cs)
               else Inl SyntaxError))"
| "parse_members 0 s = Inl OutOfFuel"
| "parse_members (Suc n) s =
     (case skip_ws s of
        [] \<Rightarrow> Inl SyntaxError
      | q # cs \<Rightarrow>
          if q \<noteq> dquote then Inl SyntaxError
          else
            (case parse_chars cs of
               Inl e \<Rightarrow> Inl e
             | Inr (k, r) \<Rightarrow>
                 (case skip_ws r of
                    [] \<Rightarrow> Inl SyntaxError
                  | c # r1 \<Rightarrow>
                      if c \<noteq> CHR '':'' then Inl SyntaxError
                      else
                        (case parse_value n r1 of
                           Inl e \<Rightarrow> Inl e
                         | Inr (v, r2) \<Rightarrow>
                             (case skip_ws r2 of
                                [] \<Rightarrow> Inl SyntaxError
                              | d # r3 \<Rightarrow>
                                  if d = CHR '','' then
                                    (case parse_members n r3 of
                                       Inl e \<Rightarrow> Inl e
                                     | Inr (kvs, r') \<Rightarrow> Inr ((k, v) # kvs, r'))
                                  else if d = CHR ''}'' then Inr ([(k, v)], r3)
                                  else Inl SyntaxError)))))"

text \<open>\<open>JSON.parse\<close>: one value between optional white space, and nothing after it.\<close>

definition JSON_parse :: "string \<Rightarrow> error + json" where
  "JSON_parse s =
     (case parse_value (2 * length s + 1) s of
        Inl e \<Rightarrow> Inl e
      | Inr (v, r) \<Rightarrow> if skip_ws r = [] then Inr v else Inl SyntaxError)"


section \<open>The chain and its durable copy\<close>

text \<open>
  The state: the chain held by the \<open>Blockchain\<close> object, and the value stored in
  \<open>localStorage\<close> under the key \<open>attendanceBlockchain\<close> (\<open>None\<close> when the key is absent).
  The clock (\<open>Date.now()\<close>) is an argument of every operation that reads it. Writing to
  \<open>localStorage\<close> is taken to succeed.
\<close>

record state =
  chain :: "Block list"
  localStorage :: "string option"

definition block_json :: "Block \<Rightarrow> json" where
  "block_json b =
     JObj [(''index'', JNum (index b)), (''timestamp'', JNum (timestamp b)),
           (''data'', data_json (data b)), (''previousHash'', JStr (previousHash b)),
           (''hash'', JStr (hash b))]"

definition chain_json :: "Block list \<Rightarrow> json" where
  "chain_json c = JArr (map block_json c)"

definition genesis_data :: attendance where
  "genesis_data = \<lparr>studentId = ''N/A'', status = ''Genesis Block'', date = ''N/A''\<rparr>"

definition createGenesisBlock :: "nat \<Rightarrow> Block" where
  "createGenesisBlock now = new_Block 0 now genesis_data ''0''"

text \<open>\<open>this.chain[this.chain.length - 1]\<close>: \<open>undefined\<close> on an empty chain.\<close>

definition getLatestBlock :: "Block list \<Rightarrow> Block option" where
  "getLatestBlock c = (if c = [] then None else Some (c ! (length c - 1)))"

definition saveChain :: "state \<Rightarrow> state" where
  "saveChain st = st\<lparr>localStorage := Some (stringify (chain_json (chain st)))\<rparr>"

text \<open>Reading \<open>index\<close> of \<open>undefined\<close> raises a \<open>TypeError\<close> before anything is changed.\<close>

definition addBlock :: "attendance \<Rightarrow> nat \<Rightarrow> state \<Rightarrow> error + state" where
  "addBlock d now st =
     (case getLatestBlock (chain st) of
        None \<Rightarrow> Inl TypeError
      | Some latestBlock \<Rightarrow>
          (let newBlock = new_Block (index latestBlock + 1) now d (hash latestBlock)
           in Inr (saveChain (st\<lparr>chain := chain st @ [newBlock]\<rparr>))))"

text \<open>
  The loop of \<open>isChainValid\<close>, from position \<open>i\<close>. Its result is the message the loop logs
  before it returns false, \<open>None\<close> when it reaches the end of the chain.
\<close>

datatype violation = HashMismatch nat | BadLink nat

function validate_from :: "nat \<Rightarrow> Block list \<Rightarrow> violation option" where
  "validate_from i c =
     (if i < length c then
        (let currentBlock = c ! i; previousBlock = c ! (i - 1) in
         if hash currentBlock \<noteq> calculateHash currentBlock then Some (HashMismatch i)
         else if previousHash currentBlock \<noteq> hash previousBlock then Some (BadLink i)
         else validate_from (i + 1) c)
      else None)"
  by pat_completeness auto
termination
  by (relation "measure (\<lambda>(i, c). length c - i)") auto

declare validate_from.simps [simp del]

definition isChainValid :: "Block list \<Rightarrow> bool" where
  "isChainValid c = (validate_from 1 c = None)"

text \<open>
  \<open>loadChain\<close>. A stored value that is absent or the empty string is falsy and gives
  \<open>null\<close>. Otherwise the text is parsed, and \<open>map\<close> is called on the result: a
  \<open>TypeError\<close> unless it is an array, and for an element that is \<open>null\<close>. The fields of
  an element are looked up by name (of a repeated key the last one counts).
\<close>

definition field :: "(string \<times> json) list \<Rightarrow> string \<Rightarrow> json option" where
  "field kvs k = map_of (rev kvs) k"

definition data_of_json :: "json \<Rightarrow> error + attendance" where
  "data_of_json j =
     (case j of
        JObj [(k1, JStr a), (k2, JStr b), (k3, JStr c)] \<Rightarrow>
          if k1 = ''studentId'' \<and> k2 = ''status'' \<and> k3 = ''date''
          then Inr \<lparr>studentId = a, status = b, date = c\<rparr>
          else Inl OutsideModel
      | _ \<Rightarrow> Inl OutsideModel)"

definition block_of_json :: "json \<Rightarrow> error + Block" where
  "block_of_json blockData =
     (case blockData of
        JNull \<Rightarrow> Inl TypeError
      | JObj kvs \<Rightarrow>
          (case (field kvs ''index'', field kvs ''timestamp'', field kvs ''data'',
                 field kvs ''previousHash'', field kvs ''hash'') of
             (Some (JNum i), Some (JNum t), Some dj, Some (JStr p), Some (JStr h)) \<Rightarrow>
               (case data_of_json dj of
                  Inl e \<Rightarrow> Inl e
                | Inr d \<Rightarrow> Inr ((new_Block i t d p)\<lparr>hash := h\<rparr>))
           | _ \<Rightarrow> Inl OutsideModel)
      | _ \<Rightarrow> Inl OutsideModel)"

fun collect :: "(error + 'a) list \<Rightarrow> error + 'a list" where
  "collect [] = Inr []"
| "collect (x # xs) =
     (case x of
        Inl e \<Rightarrow> Inl e
      | Inr v \<Rightarrow> (case collect xs of Inl e \<Rightarrow> Inl e | Inr vs \<Rightarrow> Inr (v # vs)))"

definition map_blocks :: "json list \<Rightarrow> error + Block list" where
  "map_blocks xs = (if JNull \<in> set xs then Inl TypeError else collect (map block_of_json xs))"

definition loadChain :: "string option \<Rightarrow> error + Block list option" where
  "loadChain stored =
     (case stored of
        None \<Rightarrow> Inr None
      | Some storedChain \<Rightarrow>
          if storedChain = [] then Inr None
          else (case JSON_parse storedChain of
                  Inl e \<Rightarrow> Inl e
                | Inr (JArr xs) \<Rightarrow>
                    (case map_blocks xs of Inl e \<Rightarrow> Inl e | Inr c \<Rightarrow> Inr (Some c))
                | Inr _ \<Rightarrow> Inl TypeError))"

text \<open>
  The constructor of \<open>Blockchain\<close>: \<open>this.chain = this.loadChain() || [genesis]\<close>. An array,
  even an empty one, is truthy. The constructor writes nothing to \<open>localStorage\<close>.
\<close>

definition new_Blockchain :: "nat \<Rightarrow> string option \<Rightarrow> error + state" where
  "new_Blockchain now stored =
     (case loadChain stored of
        Inl e \<Rightarrow> Inl e
      | Inr None \<Rightarrow> Inr \<lparr>chain = [createGenesisBlock now], localStorage = stored\<rparr>
      | Inr (Some c) \<Rightarrow> Inr \<lparr>chain = c, localStorage = stored\<rparr>)"

definition clearChain :: "nat \<Rightarrow> state \<Rightarrow> state" where
  "clearChain now st =
     saveChain ((st\<lparr>localStorage := None\<rparr>)\<lparr>chain := [createGenesisBlock now]\<rparr>)"


section \<open>The attendance summary\<close>

text \<open>
  The percentage is computed in IEEE double arithmetic. A double is modelled by the
  rational number it denotes, and each operation rounds its exact result to the nearest
  number with a 53-bit significand, ties to the even significand (\<open>round_double\<close>; the
  operands here are far from the overflow and underflow thresholds).
\<close>

fun bitlen :: "nat \<Rightarrow> nat" where
  "bitlen n = (if n = 0 then 0 else Suc (bitlen (n div 2)))"

declare bitlen.simps [simp del]

text \<open>For \<open>x > 0\<close>, the exponent \<open>e\<close> with \<open>2 ^ e \<le> x < 2 ^ (e + 1)\<close>.\<close>

definition floor_log2 :: "rat \<Rightarrow> int" where
  "floor_log2 x =
     (let (a, b) = quotient_of x;
          d = int (bitlen (nat a)) - int (bitlen (nat b))
      in if 2 powi d \<le> x then d else d - 1)"

definition round_half_even :: "rat \<Rightarrow> int" where
  "round_half_even y =
     (let f = \<lfloor>y\<rfloor>; r = y - of_int f in
      if r < 1 / 2 then f
      else if 1 / 2 < r then f + 1
      else if even f then f else f + 1)"

definition round_double :: "rat \<Rightarrow> rat" where
  "round_double x =
     (if x \<le> 0 then 0
      else (let u = 2 powi (floor_log2 x - 52)
            in of_int (round_half_even (x / u)) * u))"

definition js_div :: "rat \<Rightarrow> rat \<Rightarrow> rat" where
  "js_div x y = round_double (x / y)"

definition js_mul :: "rat \<Rightarrow> rat \<Rightarrow> rat" where
  "js_mul x y = round_double (x * y)"

text \<open>
  \<open>x.toFixed(2)\<close> for \<open>0 \<le> x < 10 ^ 21\<close>: the integer \<open>n\<close> with \<open>n / 100\<close> nearest to \<open>x\<close>
  (the larger one of two), written with at least three digits and a point before the
  last two.
\<close>

definition toFixed2 :: "rat \<Rightarrow> string" where
  "toFixed2 x =
     (let n = nat \<lfloor>x * 100 + 1 / 2\<rfloor>;
          m = Number_toString n;
          m = (if length m \<le> 2 then replicate (3 - length m) (CHR ''0'') @ m else m);
          k = length m
      in take (k - 2) m @ ''.'' @ drop (k - 2) m)"

record summary =
  totalDays :: nat
  presentDays :: nat
  absentDays :: nat
  attendancePercentage :: rat
  percentageText :: string
  eligibilityStatus :: string

text \<open>
  \<open>updateAttendanceSummary\<close>: what it computes and writes into the five elements of the
  page (the three counts are shown in decimal).
\<close>

definition updateAttendanceSummary :: "Block list \<Rightarrow> summary" where
  "updateAttendanceSummary c =
     (let rest = drop 1 c;
          total = length rest;
          present = foldl (\<lambda>n block. if status (data block) = ''present'' then n + 1 else n) 0 rest;
          absent = total - present;
          percentage = (if total > 0 then js_mul (js_div (of_nat present) (of_nat total)) 100 else 0);
          isEligible = (percentage \<ge> 85)
      in \<lparr>totalDays = total, presentDays = present, absentDays = absent,
          attendancePercentage = percentage,
          percentageText = toFixed2 percentage @ ''%'',
          eligibilityStatus =
            (if total = 0 then ''N/A'' else if isEligible then ''Eligible!'' else ''Not Eligible'')\<rparr>)"

section \<open>The buttons\<close>

text \<open>
  A handler returns the new state and the message it leaves in the message box (the last
  call of \<open>showMessage\<close>). The text of the input field, the date of the day
  (\<open>new Date().toISOString().slice(0, 10)\<close>) and the clock are arguments.
\<close>

datatype message_type = Success | Error | Info

type_synonym message = "string \<times> message_type"

datatype presence = Present | Absent

fun status_of :: "presence \<Rightarrow> string" where
  "status_of Present = ''present''"
| "status_of Absent = ''absent''"

fun label_of :: "presence \<Rightarrow> string" where
  "label_of Present = ''Present''"
| "label_of Absent = ''Absent''"

text \<open>\<open>trim\<close>: the white space and line terminators up to U+00FF, removed at both ends.\<close>

definition is_space :: "char \<Rightarrow> bool" where
  "is_space c = ((of_char c :: nat) \<in> {9, 10, 11, 12, 13, 32, 160})"

definition trim :: "string \<Rightarrow> string" where
  "trim s = rev (dropWhile is_space (rev (dropWhile is_space s)))"

text \<open>
  The two handlers differ in the status they record and in one word of the last message.
  \<open>recordAttendance\<close> is what both do once the student id is known to be non-empty: the
  search for an entry of that student on that day, and the append.
\<close>

definition recordAttendance ::
  "presence \<Rightarrow> string \<Rightarrow> string \<Rightarrow> nat \<Rightarrow> state \<Rightarrow> error + (state \<times> message)" where
  "recordAttendance p sid today now st =
     (case find (\<lambda>block. date (data block) = today \<and> studentId (data block) = sid) (chain st) of
        Some existingAttendance \<Rightarrow>
          Inr (st, (''Attendance for Student ID '' @ sid @ '' on today ('' @ today
                      @ '') has already been marked as ''
                      @ status (data existingAttendance) @ ''.'', Info))
      | None \<Rightarrow>
          (case addBlock \<lparr>studentId = sid, status = status_of p, date = today\<rparr> now st of
             Inl e \<Rightarrow> Inl e
           | Inr st' \<Rightarrow>
               Inr (st', (''Attendance marked as '' @ label_of p @ '' for Student ID: ''
                            @ sid @ ''!'', Success))))"

definition mark_click ::
  "presence \<Rightarrow> string \<Rightarrow> string \<Rightarrow> nat \<Rightarrow> state \<Rightarrow> error + (state \<times> message)" where
  "mark_click p input today now st =
     (let sid = trim input in
      if sid = [] then Inr (st, (''Please enter a Student ID to mark attendance.'', Error))
      else recordAttendance p sid today now st)"

definition markPresentBtn_click ::
  "string \<Rightarrow> string \<Rightarrow> nat \<Rightarrow> state \<Rightarrow> error + (state \<times> message)" where
  "markPresentBtn_click = mark_click Present"

definition markAbsentBtn_click ::
  "string \<Rightarrow> string \<Rightarrow> nat \<Rightarrow> state \<Rightarrow> error + (state \<times> message)" where
  "markAbsentBtn_click = mark_click Absent"

text \<open>
  \<open>confirm\<close> is the function of the script, which returns a promise: a promise is truthy,
  so the handler clears the chain whatever is answered.
\<close>

definition clearDataBtn_click :: "nat \<Rightarrow> state \<Rightarrow> error + (state \<times> message)" where
  "clearDataBtn_click now st = Inr (clearChain now st, (''All attendance data cleared!'', Success))"

text \<open>Sequences of clicks.\<close>

datatype click = MarkPresent string string nat | MarkAbsent string string nat | ClearData nat

fun click_step :: "click \<Rightarrow> state \<Rightarrow> error + (state \<times> message)" where
  "click_step (MarkPresent input today now) st = markPresentBtn_click input today now st"
| "click_step (MarkAbsent input today now) st = markAbsentBtn_click input today now st"
| "click_step (ClearData now) st = clearDataBtn_click now st"

fun run_clicks :: "click list \<Rightarrow> state \<Rightarrow> error + state" where
  "run_clicks [] st = Inr st"
| "run_clicks (c # cs) st =
     (case click_step c st of
        Inl e \<Rightarrow> Inl e
      | Inr (st', m) \<Rightarrow> run_clicks cs st')"

text \<open>At most one entry of a student on a day, among the records after the first.\<close>

definition one_entry_per_day :: "Block list \<Rightarrow> bool" where
  "one_entry_per_day c =
     (\<forall>i \<in> {1 ..< length c}. \<forall>j \<in> {1 ..< length c}.
        i \<noteq> j \<longrightarrow>
          \<not> (studentId (data (c ! i)) = studentId (data (c ! j))
             \<and> date (data (c ! i)) = date (data (c ! j))))"

section \<open>A chain to test on\<close>

text \<open>
  The chain after two students were marked on one day, from an empty store: the first
  record, a present student, an absent one. \<open>tampered_first\<close> is the second record with
  its status turned from present to absent and its fingerprint left as it was.
\<close>

definition example_genesis :: Block where
  "example_genesis = createGenesisBlock 1700000000000"

definition example_first :: Block where
  "example_first =
     new_Block 1 1700000000001
       \<lparr>studentId = ''S1'', status = ''present'', date = ''2024-01-01''\<rparr> (hash example_genesis)"

definition example_second :: Block where
  "example_second =
     new_Block 2 1700000000002
       \<lparr>studentId = ''S2'', status = ''absent'', date = ''2024-01-01''\<rparr> (hash example_first)"

definition example_chain :: "Block list" where
  "example_chain = [example_genesis, example_first, example_second]"

definition tampered_first :: Block where
  "tampered_first = example_first\<lparr>data := (data example_first)\<lparr>status := ''absent''\<rparr>\<rparr>"

definition example_clicks :: "click list" where
  "example_clicks =
     [MarkPresent ''S1'' ''2024-01-01'' 1700000000001,
      MarkAbsent '' S2 '' ''2024-01-01'' 1700000000002]"

text \<open>
  Twenty days of one student after the first record: present on the first \<open>p\<close> days,
  absent on the other days.
\<close>

definition attendance_days :: "nat \<Rightarrow> Block list" where
  "attendance_days p =
     createGenesisBlock 1700000000000
       # map (\<lambda>i. new_Block i (1700000000000 + i)
                  \<lparr>studentId = ''S1'', status = (if i \<le> p then ''present'' else ''absent''),
                     date = ''day '' @ Number_toString i\<rparr> ''0'')
           [1 ..< 21]"

text \<open>What may follow a value in a text: nothing, or a character that does not go on a number.\<close>

definition follows_value :: "string \<Rightarrow> bool" where
  "follows_value rest =
     (rest = [] \<or> (\<not> is_digit (hd rest) \<and> hd rest \<notin> {CHR ''.'', CHR ''e'', CHR ''E''}))"

section \<open>Properties\<close>

subsection \<open>The fingerprint\<close>

lemma length_btoa: "length (btoa s) = 4 * ((length s + 2) div 3)"
proof (induction s rule: btoa.induct)
  case (4 a b c rest)
  then have "length (btoa rest) = 4 * ((length rest + 2) div 3)" by simp
  moreover have "(5 + length rest) div 3 = Suc ((length rest + 2) div 3)" by arith
  ultimately show ?case by (simp add: Let_def)
qed (simp_all add: Let_def)

lemma btoa_append: "length xs mod 3 = 0 \<Longrightarrow> btoa (xs @ ys) = btoa xs @ btoa ys"
proof (induction xs rule: btoa.induct)
  case (4 a b c rest)
  from "4.prems" have "length rest mod 3 = 0" by simp
  with "4.IH" have "btoa (rest @ ys) = btoa rest @ btoa ys" by simp
  then show ?case by (simp add: Let_def)
qed simp_all

text \<open>Sixty-four characters of Base64 are forty-eight bytes: the cut keeps those.\<close>

lemma take_64_btoa: "take 64 (btoa s) = btoa (take 48 s)"
proof (cases "length s \<le> 48")
  case True
  then have "length (btoa s) \<le> 64" by (simp add: length_btoa)
  with True show ?thesis by simp
next
  case False
  then have len: "length (take 48 s) = 48" by simp
  have "btoa s = btoa (take 48 s @ drop 48 s)" by simp
  also have "\<dots> = btoa (take 48 s) @ btoa (drop 48 s)"
    by (rule btoa_append) (simp only: len, simp)
  finally have eq: "btoa s = btoa (take 48 s) @ btoa (drop 48 s)" .
  have "length (btoa (take 48 s)) = 64" by (simp only: length_btoa len, simp)
  then show ?thesis by (simp add: eq)
qed

lemma distinct_b64_alphabet: "distinct b64_alphabet"
  by (simp add: b64_alphabet_def)

lemma length_b64_alphabet: "length b64_alphabet = 64"
  by (simp add: b64_alphabet_def)

lemma b64_inj: "n < 64 \<Longrightarrow> m < 64 \<Longrightarrow> b64 n = b64 m \<Longrightarrow> n = m"
  using distinct_b64_alphabet length_b64_alphabet
  by (simp add: b64_def nth_eq_iff_index_eq)

lemma b64_not_pad: "n < 64 \<Longrightarrow> b64 n \<noteq> CHR ''=''"
proof -
  assume "n < 64"
  then have "b64 n \<in> set b64_alphabet"
    by (simp add: b64_def length_b64_alphabet)
  moreover have "CHR ''='' \<notin> set b64_alphabet" by (simp add: b64_alphabet_def)
  ultimately show ?thesis by auto
qed

lemma split_sum:
  fixes a b a' b' k :: nat
  assumes "a * k + b = a' * k + b'" "b < k" "b' < k"
  shows "a = a' \<and> b = b'"
proof -
  have "(a * k + b) div k = a" "(a' * k + b') div k = a'"
    using assms(2,3) by simp_all
  with assms(1) have "a = a'" by simp
  with assms(1) show ?thesis by simp
qed

lemma sextets_inj:
  fixes x y z x' y' z' :: nat
  assumes "y < 256" "z < 256" "y' < 256" "z' < 256"
    and e1: "x div 4 = x' div 4"
    and e2: "(x mod 4) * 16 + y div 16 = (x' mod 4) * 16 + y' div 16"
    and e3: "(y mod 16) * 4 + z div 64 = (y' mod 16) * 4 + z' div 64"
    and e4: "z mod 64 = z' mod 64"
  shows "x = x' \<and> y = y' \<and> z = z'"
proof -
  have "y div 16 < 16" "y' div 16 < 16" using assms(1,3) by simp_all
  with e2 have a: "x mod 4 = x' mod 4" "y div 16 = y' div 16"
    using split_sum [of "x mod 4" 16 "y div 16" "x' mod 4" "y' div 16"] by simp_all
  have "z div 64 < 4" "z' div 64 < 4" using assms(2,4) by simp_all
  with e3 have b: "y mod 16 = y' mod 16" "z div 64 = z' div 64"
    using split_sum [of "y mod 16" 4 "z div 64" "y' mod 16" "z' div 64"] by simp_all
  have "x = 4 * (x div 4) + x mod 4" "x' = 4 * (x' div 4) + x' mod 4" by simp_all
  with e1 a(1) have "x = x'" by simp
  moreover have "y = 16 * (y div 16) + y mod 16" "y' = 16 * (y' div 16) + y' mod 16" by simp_all
  with a(2) b(1) have "y = y'" by simp
  moreover have "z = 64 * (z div 64) + z mod 64" "z' = 64 * (z' div 64) + z' mod 64" by simp_all
  with b(2) e4 have "z = z'" by simp
  ultimately show ?thesis by simp
qed


lemma b64_eq_iff: "n < 64 \<Longrightarrow> m < 64 \<Longrightarrow> b64 n = b64 m \<longleftrightarrow> n = m"
  using b64_inj by blast

lemma sextet_bounds:
  fixes x y :: nat
  assumes "y < 256"
  shows "(x mod 4) * 16 + y div 16 < 64" "(x mod 16) * 4 + y div 64 < 64"
    "(x mod 4) * 16 < 64" "(x mod 16) * 4 < 64" "y div 4 < 64" "x mod 64 < 64"
proof -
  have "x mod 4 \<le> 3" "x mod 16 \<le> 15" "y div 16 \<le> 15" "y div 64 \<le> 3" using assms by simp_all
  then show "(x mod 4) * 16 + y div 16 < 64" "(x mod 16) * 4 + y div 64 < 64"
    "(x mod 4) * 16 < 64" "(x mod 16) * 4 < 64" by simp_all
  show "y div 4 < 64" using assms by simp
  show "x mod 64 < 64" by simp
qed

lemma btoa_Nil_iff: "btoa s = [] \<longleftrightarrow> s = []"
  by (cases s rule: btoa.cases) (simp_all add: Let_def)

text \<open>Base64 loses nothing: two byte strings with one encoding are equal.\<close>

lemma btoa_inj: "btoa s = btoa t \<Longrightarrow> s = t"
proof (induction s arbitrary: t rule: btoa.induct)
  case 1
  then have "btoa t = []" by simp
  then show ?case by (simp add: btoa_Nil_iff)
next
  case (2 a)
  note b = sextet_bounds [OF nat_of_char_less_256]
  show ?case
  proof (cases t rule: btoa.cases)
    case 1
    with "2.prems" show ?thesis by (simp add: Let_def)
  next
    case (2 a')
    with "2.prems" have "of_char a div 4 = (of_char a' :: nat) div 4"
      "(of_char a mod 4) * 16 = ((of_char a' :: nat) mod 4) * 16"
      by (simp_all add: Let_def b64_eq_iff b)
    then have "(of_char a :: nat) = of_char a'"
      using sextets_inj [of 0 0 0 0 "of_char a" "of_char a'"] by simp
    with 2 show ?thesis by simp
  next
    case (3 a' b')
    with "2.prems" have "b64 ((of_char b' mod 16) * 4) = CHR ''=''" by (simp add: Let_def)
    then show ?thesis using b64_not_pad b(4) by blast
  next
    case (4 a' b' c' rest')
    with "2.prems" have "b64 ((of_char b' mod 16) * 4 + of_char c' div 64) = CHR ''=''"
      by (simp add: Let_def)
    then show ?thesis using b64_not_pad b(2) by blast
  qed
next
  case (3 a b)
  note b = sextet_bounds [OF nat_of_char_less_256]
  show ?case
  proof (cases t rule: btoa.cases)
    case 1
    with "3.prems" show ?thesis by (simp add: Let_def)
  next
    case (2 a')
    with "3.prems" have "b64 ((of_char b mod 16) * 4) = CHR ''=''" by (simp add: Let_def)
    then show ?thesis using b64_not_pad b(4) by blast
  next
    case (3 a' b')
    with "3.prems" have "of_char a div 4 = (of_char a' :: nat) div 4"
      "(of_char a mod 4) * 16 + of_char b div 16 = ((of_char a' :: nat) mod 4) * 16 + of_char b' div 16"
      "(of_char b mod 16) * 4 = ((of_char b' :: nat) mod 16) * 4"
      by (simp_all add: Let_def b64_eq_iff b)
    then have "(of_char a :: nat) = of_char a' \<and> (of_char b :: nat) = of_char b'"
      using sextets_inj [of "of_char b" 0 "of_char b'" 0 "of_char a" "of_char a'"] by simp
    with 3 show ?thesis by simp
  next
    case (4 a' b' c' rest')
    with "3.prems" have "b64 (of_char c' mod 64) = CHR ''=''" by (simp add: Let_def)
    then show ?thesis using b64_not_pad b(6) by metis
  qed
next
  case (4 a b c rest)
  note b = sextet_bounds [OF nat_of_char_less_256]
  show ?case
  proof (cases t rule: btoa.cases)
    case 1
    with "4.prems" show ?thesis by (simp add: Let_def)
  next
    case (2 a')
    with "4.prems" have "b64 ((of_char b mod 16) * 4 + of_char c div 64) = CHR ''=''"
      by (simp add: Let_def)
    then show ?thesis using b64_not_pad b(2) by metis
  next
    case (3 a' b')
    with "4.prems" have "b64 (of_char c mod 64) = CHR ''=''" by (simp add: Let_def)
    then show ?thesis using b64_not_pad b(6) by metis
  next
    case (4 a' b' c' rest')
    with "4.prems" have q: "of_char a div 4 = (of_char a' :: nat) div 4"
      "(of_char a mod 4) * 16 + of_char b div 16 = ((of_char a' :: nat) mod 4) * 16 + of_char b' div 16"
      "(of_char b mod 16) * 4 + of_char c div 64 = ((of_char b' :: nat) mod 16) * 4 + of_char c' div 64"
      "of_char c mod 64 = (of_char c' :: nat) mod 64"
      and r: "btoa rest = btoa rest'"
      by (simp_all add: Let_def b64_eq_iff b)
    have "(of_char a :: nat) = of_char a' \<and> (of_char b :: nat) = of_char b' \<and> (of_char c :: nat) = of_char c'"
      using q by (intro sextets_inj) simp_all
    moreover have "rest = rest'" using "4.IH" r by simp
    ultimately show ?thesis using 4 by simp
  qed
qed

lemma calculateHash_alt:
  "calculateHash b = btoa (take 48 (unescape_encodeURIComponent (hash_input b)))"
  by (simp add: calculateHash_def take_64_btoa)

lemma utf8_char_nonempty: "1 \<le> length (utf8_char c)"
  by (simp add: utf8_char_def)

lemma length_utf8: "length s \<le> length (unescape_encodeURIComponent s)"
proof (induction s)
  case Nil
  then show ?case by (simp add: unescape_encodeURIComponent_def)
next
  case (Cons c s)
  then show ?case
    using utf8_char_nonempty [of c] by (simp add: unescape_encodeURIComponent_def)
qed

lemma utf8_append:
  "unescape_encodeURIComponent (p @ q) = unescape_encodeURIComponent p @ unescape_encodeURIComponent q"
  by (simp add: unescape_encodeURIComponent_def)

lemma Number_toString_nonempty: "1 \<le> length (Number_toString n)"
  by (subst Number_toString.simps) simp

text \<open>
  Once the position and the previous fingerprint fill 48 bytes, nothing else is encoded:
  the time stamp and the payload do not reach the fingerprint.
\<close>

lemma calculateHash_prefix:
  assumes "47 \<le> length (previousHash b)"
  shows "calculateHash b
    = btoa (take 48 (unescape_encodeURIComponent (Number_toString (index b) @ previousHash b)))"
proof -
  let ?p = "Number_toString (index b) @ previousHash b"
  have "48 \<le> length ?p" using assms Number_toString_nonempty [of "index b"] by simp
  then have "48 \<le> length (unescape_encodeURIComponent ?p)"
    using length_utf8 [of ?p] by linarith
  moreover have "hash_input b = ?p @ (Number_toString (timestamp b) @ stringify (data_json (data b)))"
    by (simp add: hash_input_def)
  ultimately show ?thesis
    by (simp add: calculateHash_alt utf8_append)
qed

lemma calculateHash_payload_ignored:
  assumes "47 \<le> length (previousHash b)"
  shows "calculateHash (b\<lparr>timestamp := t, data := d\<rparr>) = calculateHash b"
  using assms calculateHash_prefix [of b] calculateHash_prefix [of "b\<lparr>timestamp := t, data := d\<rparr>"]
  by simp

lemma calculateHash_hash_update: "calculateHash (b\<lparr>hash := h\<rparr>) = calculateHash b"
  by (simp add: calculateHash_def hash_input_def)

lemma hash_new_Block: "calculateHash (new_Block i t d p) = hash (new_Block i t d p)"
  by (simp add: new_Block_def Let_def calculateHash_def hash_input_def)

lemma new_Block_fields:
  "index (new_Block i t d p) = i" "timestamp (new_Block i t d p) = t"
  "data (new_Block i t d p) = d" "previousHash (new_Block i t d p) = p"
  by (simp_all add: new_Block_def Let_def)

lemma length_calculateHash:
  assumes "48 \<le> length (hash_input b)"
  shows "length (calculateHash b) = 64"
proof -
  have "48 \<le> length (unescape_encodeURIComponent (hash_input b))"
    using assms length_utf8 [of "hash_input b"] by linarith
  then have len: "length (take 48 (unescape_encodeURIComponent (hash_input b))) = 48" by simp
  show ?thesis by (simp only: calculateHash_alt length_btoa len, simp)
qed

lemma length_stringify_genesis_data: "length (stringify (data_json genesis_data)) = 57"
  by (simp add: data_json_def genesis_data_def quote_def quote_char_def Let_def)

lemma length_hash_genesis: "length (hash (createGenesisBlock now)) = 64"
proof -
  have "hash (createGenesisBlock now) = calculateHash (createGenesisBlock now)"
    by (simp add: createGenesisBlock_def hash_new_Block)
  moreover have "48 \<le> length (hash_input (createGenesisBlock now))"
    by (simp add: hash_input_def createGenesisBlock_def new_Block_fields length_stringify_genesis_data)
  ultimately show ?thesis by (simp add: length_calculateHash)
qed

lemma length_hash_new_Block:
  assumes "47 \<le> length p"
  shows "length (hash (new_Block i t d p)) = 64"
proof -
  have "48 \<le> length (hash_input (new_Block i t d p))"
    using assms Number_toString_nonempty [of i] by (simp add: hash_input_def new_Block_fields)
  then show ?thesis by (simp add: hash_new_Block [symmetric] length_calculateHash)
qed

text \<open>The loop of \<open>isChainValid\<close> finds nothing exactly when every record from \<open>i\<close> on passes both checks.\<close>

lemma validate_from_None_iff:
  "validate_from i c = None \<longleftrightarrow>
     (\<forall>k. i \<le> k \<and> k < length c \<longrightarrow>
        hash (c ! k) = calculateHash (c ! k) \<and> previousHash (c ! k) = hash (c ! (k - 1)))"
proof (induction i c rule: validate_from.induct)
  case (1 i c)
  show ?case
  proof (cases "i < length c")
    case False
    then show ?thesis by (auto simp add: validate_from.simps [of i c])
  next
    case True
    show ?thesis
    proof (cases "hash (c ! i) = calculateHash (c ! i) \<and> previousHash (c ! i) = hash (c ! (i - 1))")
      case False
      with True have "validate_from i c \<noteq> None"
        by (auto simp add: validate_from.simps [of i c] Let_def)
      with False True show ?thesis by auto
    next
      case ok: True
      with True have "validate_from i c = validate_from (i + 1) c"
        by (simp add: validate_from.simps [of i c] Let_def)
      also have "\<dots> = None \<longleftrightarrow>
        (\<forall>k. i + 1 \<le> k \<and> k < length c \<longrightarrow>
          hash (c ! k) = calculateHash (c ! k) \<and> previousHash (c ! k) = hash (c ! (k - 1)))"
        using "1.IH" True ok by simp
      also have "\<dots> \<longleftrightarrow>
        (\<forall>k. i \<le> k \<and> k < length c \<longrightarrow>
          hash (c ! k) = calculateHash (c ! k) \<and> previousHash (c ! k) = hash (c ! (k - 1)))"
      proof (intro iffI allI impI)
        fix k
        assume a: "\<forall>k. i + 1 \<le> k \<and> k < length c \<longrightarrow>
          hash (c ! k) = calculateHash (c ! k) \<and> previousHash (c ! k) = hash (c ! (k - 1))"
          and k: "i \<le> k \<and> k < length c"
        show "hash (c ! k) = calculateHash (c ! k) \<and> previousHash (c ! k) = hash (c ! (k - 1))"
        proof (cases "k = i")
          case True
          with ok show ?thesis by simp
        next
          case False
          with k have "i + 1 \<le> k \<and> k < length c" by simp
          with a show ?thesis by blast
        qed
      next
        fix k
        assume a: "\<forall>k. i \<le> k \<and> k < length c \<longrightarrow>
          hash (c ! k) = calculateHash (c ! k) \<and> previousHash (c ! k) = hash (c ! (k - 1))"
          and k: "i + 1 \<le> k \<and> k < length c"
        then have "i \<le> k \<and> k < length c" by simp
        with a show "hash (c ! k) = calculateHash (c ! k) \<and> previousHash (c ! k) = hash (c ! (k - 1))"
          by blast
      qed
      finally show ?thesis .
    qed
  qed
qed

lemma isChainValid_iff:
  "isChainValid c \<longleftrightarrow>
     (\<forall>k. 1 \<le> k \<and> k < length c \<longrightarrow>
        hash (c ! k) = calculateHash (c ! k) \<and> previousHash (c ! k) = hash (c ! (k - 1)))"
  by (simp add: isChainValid_def validate_from_None_iff)

lemma example_chain_valid: "isChainValid example_chain"
  unfolding isChainValid_iff
proof (intro allI impI)
  fix k
  assume "1 \<le> k \<and> k < length example_chain"
  then have "k = 1 \<or> k = 2" by (auto simp: example_chain_def)
  then show "hash (example_chain ! k) = calculateHash (example_chain ! k)
      \<and> previousHash (example_chain ! k) = hash (example_chain ! (k - 1))"
    by (auto simp: example_chain_def example_first_def example_second_def hash_new_Block
        new_Block_fields)
qed

lemma calculateHash_same_prefix:
  assumes "index b' = index b" "previousHash b' = previousHash b" "47 \<le> length (previousHash b)"
  shows "calculateHash b' = calculateHash b"
  using assms calculateHash_prefix [of b] calculateHash_prefix [of b'] by simp

lemma getLatestBlock_last: "c \<noteq> [] \<Longrightarrow> getLatestBlock c = Some (last c)"
  by (simp add: getLatestBlock_def last_conv_nth)

lemma validate_from_head:
  assumes "hash g' = hash g"
  shows "1 \<le> i \<Longrightarrow> validate_from i (g' # rest) = validate_from i (g # rest)"
proof (induction "Suc (length rest) - i" arbitrary: i)
  case 0
  then show ?case by (simp add: validate_from.simps [of i])
next
  case (Suc n)
  from Suc.hyps(2) have lt: "i < Suc (length rest)" by simp
  have ih: "validate_from (i + 1) (g' # rest) = validate_from (i + 1) (g # rest)"
    using Suc.hyps(1) [of "i + 1"] Suc.hyps(2) by simp
  have cur: "(g' # rest) ! i = (g # rest) ! i"
    using Suc.prems by (cases i) simp_all
  have prev: "hash ((g' # rest) ! (i - 1)) = hash ((g # rest) ! (i - 1))"
    using Suc.prems assms by (cases "i - 1") simp_all
  show ?case
    using lt ih cur prev
    by (simp add: validate_from.simps [of i "g' # rest"] validate_from.simps [of i "g # rest"] Let_def)
qed

lemma tampered_first_fields:
  "index tampered_first = index example_first"
  "previousHash tampered_first = previousHash example_first"
  "timestamp tampered_first = timestamp example_first"
  "hash tampered_first = hash example_first"
  "studentId (data tampered_first) = studentId (data example_first)"
  "date (data tampered_first) = date (data example_first)"
  "status (data tampered_first) = ''absent''"
  "status (data example_first) = ''present''"
  by (simp_all add: tampered_first_def example_first_def new_Block_fields)

lemma length_previousHash_example_first: "length (previousHash example_first) = 64"
  by (simp add: example_first_def new_Block_fields example_genesis_def length_hash_genesis)

lemma calculateHash_tampered_first: "calculateHash tampered_first = calculateHash example_first"
  by (rule calculateHash_same_prefix)
    (simp_all add: tampered_first_fields length_previousHash_example_first)

lemma Number_toString_example:
  "Number_toString 0 = ''0''" "Number_toString (Suc 0) = ''1''"
  "Number_toString 1700000000000 = ''1700000000000''"
  by (simp_all add: Number_toString.simps digit_def)

lemma hash_example_genesis:
  "hash example_genesis = ''MDAxNzAwMDAwMDAwMDAweyJzdHVkZW50SWQiOiJOL0EiLCJzdGF0dXMiOiJHZW5l''"
proof -
  have "hash example_genesis = calculateHash example_genesis"
    by (simp add: example_genesis_def createGenesisBlock_def hash_new_Block)
  also have "\<dots> = ''MDAxNzAwMDAwMDAwMDAweyJzdHVkZW50SWQiOiJOL0EiLCJzdGF0dXMiOiJHZW5l''"
    by (simp add: calculateHash_alt example_genesis_def createGenesisBlock_def new_Block_fields
        hash_input_def Number_toString_example data_json_def genesis_data_def quote_def
        quote_char_def Let_def unescape_encodeURIComponent_def utf8_char_def dquote_def
        backslash_def b64_def b64_alphabet_def)
  finally show ?thesis .
qed

lemma calculateHash_example_first:
  "calculateHash example_first = ''MU1EQXhOekF3TURBd01EQXdNREF3ZXlKemRIVmtaVzUwU1dRaU9pSk9MMEVpTENK''"
proof -
  have "47 \<le> length (previousHash example_first)"
    by (simp add: length_previousHash_example_first)
  then have "calculateHash example_first
    = btoa (take 48 (unescape_encodeURIComponent (Number_toString (index example_first) @ previousHash example_first)))"
    by (rule calculateHash_prefix)
  also have "\<dots> = ''MU1EQXhOekF3TURBd01EQXdNREF3ZXlKemRIVmtaVzUwU1dRaU9pSk9MMEVpTENK''"
    by (simp add: example_first_def new_Block_fields hash_example_genesis Number_toString_example
        unescape_encodeURIComponent_def utf8_char_def Let_def b64_def b64_alphabet_def)
  finally show ?thesis .
qed

lemma calculateHash_tampered_first_value:
  "calculateHash tampered_first = ''MU1EQXhOekF3TURBd01EQXdNREF3ZXlKemRIVmtaVzUwU1dRaU9pSk9MMEVpTENK''"
  by (simp add: calculateHash_tampered_first calculateHash_example_first)

text \<open>
  Two records have the same fingerprint exactly when the UTF-8 encodings of their
  concatenated fields agree on the first 48 bytes.
\<close>

lemma calculateHash_eq_iff:
  "calculateHash b = calculateHash b' \<longleftrightarrow>
     take 48 (unescape_encodeURIComponent (hash_input b))
       = take 48 (unescape_encodeURIComponent (hash_input b'))"
  by (auto simp: calculateHash_alt dest: btoa_inj)


subsection \<open>The operations\<close>

lemma find_first_match:
  assumes "b \<in> set xs" "P b"
  shows "\<exists>e. find P xs = Some e \<and> e \<in> set xs \<and> P e"
proof (cases "find P xs")
  case None
  with assms show ?thesis by (auto simp: find_None_iff)
next
  case (Some e)
  then show ?thesis by (auto simp: find_Some_iff)
qed

lemma example_first_data:
  "studentId (data example_first) = ''S1''" "date (data example_first) = ''2024-01-01''"
  "status (data example_first) = ''present''"
  by (simp_all add: example_first_def new_Block_fields)

lemma one_entry_per_day_distinct:
  assumes "distinct (map (\<lambda>b. (studentId (data b), date (data b))) (tl c))"
  shows "one_entry_per_day c"
  unfolding one_entry_per_day_def
proof (intro ballI impI)
  fix i j
  assume i: "i \<in> {1 ..< length c}" and j: "j \<in> {1 ..< length c}" and ne: "i \<noteq> j"
  let ?ks = "map (\<lambda>b. (studentId (data b), date (data b))) (tl c)"
  have li: "i - 1 < length ?ks" and lj: "j - 1 < length ?ks" using i j by auto
  have "i - 1 \<noteq> j - 1" using i j ne by auto
  with assms li lj have "?ks ! (i - 1) \<noteq> ?ks ! (j - 1)"
    unfolding distinct_conv_nth by blast
  moreover have "?ks ! (i - 1) = (studentId (data (c ! i)), date (data (c ! i)))"
    using i by (auto simp: nth_tl)
  moreover have "?ks ! (j - 1) = (studentId (data (c ! j)), date (data (c ! j)))"
    using j by (auto simp: nth_tl)
  ultimately show "\<not> (studentId (data (c ! i)) = studentId (data (c ! j))
             \<and> date (data (c ! i)) = date (data (c ! j)))" by auto
qed

lemma addBlock_chain:
  assumes "chain st \<noteq> []"
  shows "\<exists>st'. addBlock d now st = Inr st'
     \<and> chain st' = chain st @ [new_Block (index (last (chain st)) + 1) now d (hash (last (chain st)))]"
  using assms by (simp add: addBlock_def getLatestBlock_last saveChain_def Let_def)

lemma recordAttendance_inv:
  assumes ne: "chain st \<noteq> []"
    and dist: "distinct (map (\<lambda>b. (studentId (data b), date (data b))) (tl (chain st)))"
  shows "\<exists>st' m. recordAttendance p sid today now st = Inr (st', m) \<and> chain st' \<noteq> []
     \<and> distinct (map (\<lambda>b. (studentId (data b), date (data b))) (tl (chain st')))"
proof (cases "find (\<lambda>block. date (data block) = today \<and> studentId (data block) = sid) (chain st)")
  case (Some e)
  with ne dist show ?thesis by (simp add: recordAttendance_def)
next
  case None
  let ?d = "\<lparr>studentId = sid, status = status_of p, date = today\<rparr>"
  obtain st' where st': "addBlock ?d now st = Inr st'"
    "chain st' = chain st @ [new_Block (index (last (chain st)) + 1) now ?d (hash (last (chain st)))]"
    using addBlock_chain [OF ne] by blast
  from None have fresh: "\<forall>b \<in> set (chain st). (studentId (data b), date (data b)) \<noteq> (sid, today)"
    by (auto simp: find_None_iff)
  have "set (tl (chain st)) \<subseteq> set (chain st)" using ne by (cases "chain st") auto
  with fresh have "(sid, today) \<notin> set (map (\<lambda>b. (studentId (data b), date (data b))) (tl (chain st)))"
    by auto
  with dist ne st'(2)
  have "distinct (map (\<lambda>b. (studentId (data b), date (data b))) (tl (chain st')))"
    by (simp add: new_Block_fields)
  with st' None show ?thesis by (simp add: recordAttendance_def)
qed

lemma click_step_inv:
  assumes ne: "chain st \<noteq> []"
    and dist: "distinct (map (\<lambda>b. (studentId (data b), date (data b))) (tl (chain st)))"
  shows "\<exists>st' m. click_step c st = Inr (st', m) \<and> chain st' \<noteq> []
     \<and> distinct (map (\<lambda>b. (studentId (data b), date (data b))) (tl (chain st')))"
proof (cases c)
  case (MarkPresent input today now)
  then show ?thesis
    using recordAttendance_inv [OF ne dist, of Present "trim input" today now] ne dist
    by (auto simp: markPresentBtn_click_def mark_click_def Let_def)
next
  case (MarkAbsent input today now)
  then show ?thesis
    using recordAttendance_inv [OF ne dist, of Absent "trim input" today now] ne dist
    by (auto simp: markAbsentBtn_click_def mark_click_def Let_def)
next
  case (ClearData now)
  then show ?thesis
    by (simp add: clearDataBtn_click_def clearChain_def saveChain_def)
qed

lemma run_clicks_inv:
  assumes "chain st \<noteq> []"
    and "distinct (map (\<lambda>b. (studentId (data b), date (data b))) (tl (chain st)))"
  shows "\<exists>st'. run_clicks cs st = Inr st' \<and> chain st' \<noteq> []
     \<and> distinct (map (\<lambda>b. (studentId (data b), date (data b))) (tl (chain st')))"
  using assms
proof (induction cs arbitrary: st)
  case Nil
  then show ?case by simp
next
  case (Cons c cs)
  obtain st1 m where s1: "click_step c st = Inr (st1, m)" "chain st1 \<noteq> []"
    "distinct (map (\<lambda>b. (studentId (data b), date (data b))) (tl (chain st1)))"
    using click_step_inv [OF Cons.prems] by blast
  from Cons.IH [OF s1(2) s1(3)] s1(1) show ?case by simp
qed

lemma new_Blockchain_empty_store:
  "new_Blockchain now None = Inr \<lparr>chain = [createGenesisBlock now], localStorage = None\<rparr>"
  by (simp add: new_Blockchain_def loadChain_def)

lemma run_example_clicks:
  "\<exists>st. run_clicks example_clicks \<lparr>chain = [example_genesis], localStorage = None\<rparr> = Inr st
     \<and> chain st = example_chain"
  by (simp add: example_clicks_def markPresentBtn_click_def markAbsentBtn_click_def mark_click_def
      trim_def is_space_def recordAttendance_def example_genesis_def createGenesisBlock_def
      genesis_data_def new_Block_fields addBlock_def getLatestBlock_def saveChain_def Let_def
      example_chain_def example_first_def example_second_def numeral_2_eq_2 [symmetric])

subsection \<open>Double arithmetic and the summary\<close>

lemma bitlen_bounds: "0 < n \<Longrightarrow> 2 ^ (bitlen n - 1) \<le> n \<and> n < 2 ^ bitlen n"
proof (induction n rule: bitlen.induct)
  case (1 n)
  show ?case
  proof (cases "n div 2 = 0")
    case True
    with "1.prems" have n: "n = Suc 0" by auto
    have "bitlen (Suc 0) = 1" by (simp add: bitlen.simps [of "Suc 0"] bitlen.simps [of 0])
    with n show ?thesis by simp
  next
    case False
    then have pos: "0 < n div 2" by simp
    with "1.IH" "1.prems" have ih: "2 ^ (bitlen (n div 2) - 1) \<le> n div 2" "n div 2 < 2 ^ bitlen (n div 2)"
      by simp_all
    have bl: "bitlen n = Suc (bitlen (n div 2))" using "1.prems" by (simp add: bitlen.simps [of n])
    have ge1: "1 \<le> bitlen (n div 2)" using pos by (simp add: bitlen.simps [of "n div 2"])
    then have "(2::nat) ^ bitlen (n div 2) = 2 * 2 ^ (bitlen (n div 2) - 1)"
      by (cases "bitlen (n div 2)") simp_all
    with ih(1) have "(2::nat) ^ bitlen (n div 2) \<le> 2 * (n div 2)" by simp
    also have "\<dots> \<le> n" by simp
    finally have lo: "(2::nat) ^ (bitlen n - 1) \<le> n" by (simp add: bl)
    from ih(2) have "n div 2 + 1 \<le> 2 ^ bitlen (n div 2)" by simp
    then have "2 * (n div 2) + 2 \<le> 2 ^ bitlen n" by (simp add: bl)
    moreover have "n < 2 * (n div 2) + 2" by arith
    ultimately have "n < 2 ^ bitlen n" by linarith
    with lo show ?thesis by simp
  qed
qed

lemma two_powi_less_cancel:
  fixes x :: rat
  assumes "2 powi m \<le> x" "x < 2 powi n"
  shows "m < n"
proof (rule ccontr)
  assume "\<not> m < n"
  then have "n \<le> m" by simp
  then have "(2::rat) powi n \<le> 2 powi m" by (intro power_int_increasing) simp_all
  with assms show False by simp
qed

lemma floor_log2_unique:
  assumes "0 < x" "2 powi e \<le> x" "x < 2 powi (e + 1)"
  shows "floor_log2 x = e"
proof -
  obtain a b where q: "quotient_of x = (a, b)" by (cases "quotient_of x")
  then have b: "0 < b" and x: "x = of_int a / of_int b"
    by (simp_all add: quotient_of_denom_pos quotient_of_div)
  with assms(1) have a: "0 < a" by (simp add: zero_less_divide_iff)
  define la lb where "la = bitlen (nat a)" and "lb = bitlen (nat b)"
  define d where "d = int la - int lb"
  have ba: "2 ^ (la - 1) \<le> nat a" "nat a < 2 ^ la" and bb: "2 ^ (lb - 1) \<le> nat b" "nat b < 2 ^ lb"
    using bitlen_bounds [of "nat a"] bitlen_bounds [of "nat b"] a b by (simp_all add: la_def lb_def)
  have la1: "1 \<le> la" and lb1: "1 \<le> lb"
    using a b by (simp_all add: la_def lb_def bitlen.simps [of "nat a"] bitlen.simps [of "nat b"])
  have ra: "(2::rat) ^ (la - 1) \<le> of_int a" "(of_int a :: rat) < 2 ^ la"
  proof -
    have "(of_nat (2 ^ (la - 1)) :: rat) \<le> of_nat (nat a)" using ba(1) by (simp only: of_nat_le_iff)
    then show "(2::rat) ^ (la - 1) \<le> of_int a" using a by simp
    have "(of_nat (nat a) :: rat) < of_nat (2 ^ la)" using ba(2) by (simp only: of_nat_less_iff)
    then show "(of_int a :: rat) < 2 ^ la" using a by simp
  qed
  have rb: "(2::rat) ^ (lb - 1) \<le> of_int b" "(of_int b :: rat) < 2 ^ lb"
  proof -
    have "(of_nat (2 ^ (lb - 1)) :: rat) \<le> of_nat (nat b)" using bb(1) by (simp only: of_nat_le_iff)
    then show "(2::rat) ^ (lb - 1) \<le> of_int b" using b by simp
    have "(of_nat (nat b) :: rat) < of_nat (2 ^ lb)" using bb(2) by (simp only: of_nat_less_iff)
    then show "(of_int b :: rat) < 2 ^ lb" using b by simp
  qed
  have bpos: "(0::rat) < of_int b" using b by simp
  have apos: "(0::rat) < of_int a" using a by simp
  have lo: "(2::rat) powi (d - 1) < x"
  proof -
    have "d - 1 = int (la - 1) - int lb" using la1 by (simp add: d_def)
    then have "(2::rat) powi (d - 1) = 2 powi (int (la - 1) - int lb)" by (simp only:)
    also have "\<dots> = 2 ^ (la - 1) / 2 ^ lb" by (simp add: power_int_diff)
    also have "\<dots> < of_int a / of_int b"
      using ra(1) rb(2) bpos apos by (intro frac_less2) simp_all
    finally show ?thesis by (simp add: x)
  qed
  have hi: "x < (2::rat) powi (d + 1)"
  proof -
    have "x = of_int a / of_int b" by (rule x)
    also have "\<dots> < 2 ^ la / 2 ^ (lb - 1)"
      using ra(2) rb(1) bpos apos by (intro frac_less) simp_all
    also have "\<dots> = 2 powi (int la - int (lb - 1))" by (simp add: power_int_diff)
    also have "int la - int (lb - 1) = d + 1" using lb1 by (simp add: d_def)
    finally show ?thesis .
  qed
  have fl: "floor_log2 x = (if 2 powi d \<le> x then d else d - 1)"
    by (simp add: floor_log2_def q Let_def d_def la_def lb_def)
  show ?thesis
  proof (cases "2 powi d \<le> x")
    case True
    have "e < d + 1" using two_powi_less_cancel [OF assms(2) hi] .
    moreover have "d < e + 1" using two_powi_less_cancel [OF True assms(3)] .
    ultimately show ?thesis using True fl by simp
  next
    case False
    then have "x < 2 powi d" by simp
    then have "e < d" using two_powi_less_cancel [OF assms(2)] by simp
    moreover have "d - 1 < e + 1" using two_powi_less_cancel [of "d - 1" x "e + 1"] lo assms(3) by simp
    ultimately show ?thesis using False fl by simp
  qed
qed

lemma round_half_even_down:
  assumes "of_int f \<le> y" "y - of_int f < 1 / 2"
  shows "round_half_even y = f"
proof -
  have "\<lfloor>y\<rfloor> = f" using assms by (intro floor_unique) simp_all
  with assms show ?thesis by (simp add: round_half_even_def Let_def)
qed

lemma round_half_even_up:
  assumes "1 / 2 < y - of_int f" "y < of_int f + 1"
  shows "round_half_even y = f + 1"
proof -
  have "\<lfloor>y\<rfloor> = f" using assms by (intro floor_unique) simp_all
  with assms show ?thesis by (simp add: round_half_even_def Let_def)
qed

lemma round_double_down:
  assumes "0 < x" "2 powi e \<le> x" "x < 2 powi (e + 1)"
    and "of_int m \<le> x / 2 powi (e - 52)" "x / 2 powi (e - 52) - of_int m < 1 / 2"
  shows "round_double x = of_int m * 2 powi (e - 52)"
  using assms
  by (simp add: round_double_def Let_def floor_log2_unique [OF assms(1-3)]
      round_half_even_down [OF assms(4,5)])

lemma round_double_up:
  assumes "0 < x" "2 powi e \<le> x" "x < 2 powi (e + 1)"
    and "1 / 2 < x / 2 powi (e - 52) - of_int m" "x / 2 powi (e - 52) < of_int m + 1"
  shows "round_double x = of_int (m + 1) * 2 powi (e - 52)"
  using assms
  by (simp add: round_double_def Let_def floor_log2_unique [OF assms(1-3)]
      round_half_even_up [OF assms(4,5)])

lemma js_div_17_20: "js_div 17 20 = 7656119366529843 / 2 ^ 53"
proof -
  have "round_double (17 / 20) = of_int 7656119366529843 * 2 powi (- 1 - 52)"
    by (rule round_double_down) simp_all
  then show ?thesis by (simp add: js_div_def)
qed

lemma pct_17_20: "js_mul (js_div 17 20) 100 = 85"
proof -
  have "round_double (7656119366529843 / 2 ^ 53 * 100) = of_int (5981343255101439 + 1) * 2 powi (6 - 52)"
    by (rule round_double_up) simp_all
  then show ?thesis by (simp add: js_mul_def js_div_17_20)
qed

lemma js_div_16_20: "js_div 16 20 = 7205759403792794 / 2 ^ 53"
proof -
  have "round_double (16 / 20) = of_int (7205759403792793 + 1) * 2 powi (- 1 - 52)"
    by (rule round_double_up) simp_all
  then show ?thesis by (simp add: js_div_def)
qed

lemma pct_16_20: "js_mul (js_div 16 20) 100 = 80"
proof -
  have "round_double (7205759403792794 / 2 ^ 53 * 100) = of_int 5629499534213120 * 2 powi (6 - 52)"
    by (rule round_double_down) simp_all
  then show ?thesis by (simp add: js_mul_def js_div_16_20)
qed

lemma toFixed2_85: "toFixed2 85 = ''85.00''"
proof -
  have "\<lfloor>(85::rat) * 100 + 1 / 2\<rfloor> = 8500" by (intro floor_unique) simp_all
  then show ?thesis
    by (simp add: toFixed2_def Let_def Number_toString.simps [of 8500] Number_toString.simps [of 850]
        Number_toString.simps [of 85] Number_toString.simps [of 8] digit_def)
qed

lemma toFixed2_80: "toFixed2 80 = ''80.00''"
proof -
  have "\<lfloor>(80::rat) * 100 + 1 / 2\<rfloor> = 8000" by (intro floor_unique) simp_all
  then show ?thesis
    by (simp add: toFixed2_def Let_def Number_toString.simps [of 8000] Number_toString.simps [of 800]
        Number_toString.simps [of 80] Number_toString.simps [of 8] digit_def)
qed

lemma toFixed2_0: "toFixed2 0 = ''0.00''"
  by (simp add: toFixed2_def Let_def Number_toString.simps [of 0] digit_def)

lemma foldl_count:
  "foldl (\<lambda>n b. if P b then n + 1 else n) k xs = k + length (filter P xs)"
  by (induction xs arbitrary: k) simp_all

lemma upt_1_21: "[Suc 0 ..< 21] = [1, 2, 3, 4, 5, 6, 7, 8, 9, 10, 11, 12, 13, 14, 15, 16, 17, 18, 19, 20 :: nat]"
  by (simp add: upt_conv_Cons)

subsection \<open>Parsing what \<open>JSON.stringify\<close> writes\<close>

lemma hex_value_hex_digit: "d < 16 \<Longrightarrow> hex_value (hex_digit d) = Some d"
proof -
  assume "d < 16"
  then have "d = 0 \<or> d = 1 \<or> d = 2 \<or> d = 3 \<or> d = 4 \<or> d = 5 \<or> d = 6 \<or> d = 7 \<or> d = 8
      \<or> d = 9 \<or> d = 10 \<or> d = 11 \<or> d = 12 \<or> d = 13 \<or> d = 14 \<or> d = 15" by arith
  then show ?thesis
    by (auto simp: hex_value_def hex_digit_def Let_def)
qed

lemma hex_value_zero: "hex_value (CHR ''0'') = Some 0"
  by (simp add: hex_value_def)

lemma char_eq_of_char: "(of_char c :: nat) = of_char d \<Longrightarrow> c = d"
  by simp

lemma parse_chars_quote_char:
  "parse_chars (quote_char c @ t) =
     (case parse_chars t of Inl e \<Rightarrow> Inl e | Inr (s, r) \<Rightarrow> Inr (c # s, r))"
proof -
  let ?n = "of_char c :: nat"
  consider (b) "?n = 8" | (t) "?n = 9" | (n) "?n = 10" | (f) "?n = 12" | (r) "?n = 13"
    | (q) "?n = 34" | (s) "?n = 92"
    | (u) "?n < 32" "?n \<notin> {8, 9, 10, 12, 13}"
    | (o) "32 \<le> ?n" "?n \<noteq> 34" "?n \<noteq> 92"
    by fastforce
  then show ?thesis
  proof cases
    case b
    then have c: "c = CHR 0x08" by (intro char_eq_of_char) simp
    show ?thesis
      unfolding c by (simp add: quote_char_def simple_escape_def backslash_def dquote_def)
  next
    case t
    then have c: "c = CHR 0x09" by (intro char_eq_of_char) simp
    show ?thesis
      unfolding c by (simp add: quote_char_def simple_escape_def backslash_def dquote_def)
  next
    case n
    then have c: "c = CHR 0x0A" by (intro char_eq_of_char) simp
    show ?thesis
      unfolding c by (simp add: quote_char_def simple_escape_def backslash_def dquote_def)
  next
    case f
    then have c: "c = CHR 0x0C" by (intro char_eq_of_char) simp
    show ?thesis
      unfolding c by (simp add: quote_char_def simple_escape_def backslash_def dquote_def)
  next
    case r
    then have c: "c = CHR 0x0D" by (intro char_eq_of_char) simp
    show ?thesis
      unfolding c by (simp add: quote_char_def simple_escape_def backslash_def dquote_def)
  next
    case q
    then have c: "c = CHR 0x22" by (intro char_eq_of_char) simp
    show ?thesis
      unfolding c by (simp add: quote_char_def simple_escape_def backslash_def dquote_def)
  next
    case s
    then have c: "c = CHR 0x5C" by (intro char_eq_of_char) simp
    show ?thesis
      unfolding c by (simp add: quote_char_def simple_escape_def backslash_def dquote_def)
  next
    case u
    have q: "quote_char c =
      [backslash, CHR ''u'', CHR ''0'', CHR ''0'', hex_digit (?n div 16), hex_digit (?n mod 16)]"
      using u by (simp add: quote_char_def Let_def)
    have "?n div 16 < 16" using u(1) by simp
    then have h: "hex4 (CHR ''0'') (CHR ''0'') (hex_digit (?n div 16)) (hex_digit (?n mod 16)) = Some ?n"
      by (simp add: hex4_def hex_value_zero hex_value_hex_digit)
    have lt: "?n < 256" by simp
    show ?thesis
      using h lt by (simp add: q backslash_def dquote_def split: sum.splits)
  next
    case o
    then have "c \<noteq> dquote" "c \<noteq> backslash" by (auto simp: dquote_def backslash_def)
    with o show ?thesis by (simp add: quote_char_def Let_def)
  qed
qed

lemma parse_chars_quoted:
  "parse_chars (concat (map quote_char s) @ dquote # rest) = Inr (s, rest)"
  by (induction s) (simp_all add: parse_chars_quote_char)

lemma quote_eq: "quote s @ rest = dquote # (concat (map quote_char s) @ dquote # rest)"
  by (simp add: quote_def)

lemma digit_props:
  assumes "d < 10"
  shows "is_digit (digit d)" "(of_char (digit d) :: nat) - 48 = d" "digit d = CHR ''0'' \<longleftrightarrow> d = 0"
proof -
  from assms have "d = 0 \<or> d = 1 \<or> d = 2 \<or> d = 3 \<or> d = 4 \<or> d = 5 \<or> d = 6 \<or> d = 7 \<or> d = 8 \<or> d = 9"
    by arith
  then show "is_digit (digit d)" "(of_char (digit d) :: nat) - 48 = d" "digit d = CHR ''0'' \<longleftrightarrow> d = 0"
    by (auto simp: is_digit_def digit_def)
qed

lemma Number_toString_digits: "\<forall>c \<in> set (Number_toString n). is_digit c"
proof (induction n rule: Number_toString.induct)
  case (1 n)
  show ?case
  proof (cases "n < 10")
    case True
    then show ?thesis by (simp add: Number_toString.simps [of n] digit_props)
  next
    case False
    with "1.IH" show ?thesis by (simp add: Number_toString.simps [of n] digit_props)
  qed
qed

lemma digits_value_snoc:
  "digits_value (ds @ [c]) = 10 * digits_value ds + ((of_char c :: nat) - 48)"
  by (simp add: digits_value_def)

lemma digits_value_Number_toString: "digits_value (Number_toString n) = n"
proof (induction n rule: Number_toString.induct)
  case (1 n)
  show ?case
  proof (cases "n < 10")
    case True
    then show ?thesis
      by (simp add: Number_toString.simps [of n] digits_value_def digit_props)
  next
    case False
    with "1.IH" have "digits_value (Number_toString (n div 10)) = n div 10" by simp
    with False show ?thesis
      by (simp add: Number_toString.simps [of n] digits_value_snoc digit_props)
  qed
qed

lemma Number_toString_head:
  "\<exists>c cs. Number_toString n = c # cs \<and> is_digit c \<and> (c = CHR ''0'' \<longrightarrow> n = 0 \<and> cs = [])"
proof (induction n rule: Number_toString.induct)
  case (1 n)
  show ?case
  proof (cases "n < 10")
    case True
    then show ?thesis by (simp add: Number_toString.simps [of n] digit_props)
  next
    case False
    with "1.IH" obtain c cs where ih: "Number_toString (n div 10) = c # cs" "is_digit c"
      "c = CHR ''0'' \<longrightarrow> n div 10 = 0 \<and> cs = []" by auto
    from False have "n div 10 \<noteq> 0" by simp
    with ih have "c \<noteq> CHR ''0''" by auto
    with ih False show ?thesis by (simp add: Number_toString.simps [of n])
  qed
qed

lemma parse_number_Number_toString:
  assumes "Number_toString n = c # cs"
    and fv: "follows_value rest"
  shows "parse_number c (cs @ rest) = Inr (JNum n, rest)"
proof -
  note assms = assms(1) fv [unfolded follows_value_def]
  have dig: "\<forall>x \<in> set (c # cs). is_digit x"
    using Number_toString_digits [of n] assms(1) by simp
  have val: "digits_value (c # cs) = n"
    using digits_value_Number_toString [of n] assms(1) by simp
  obtain c' cs' where "Number_toString n = c' # cs'" "c' = CHR ''0'' \<longrightarrow> n = 0 \<and> cs' = []"
    using Number_toString_head [of n] by blast
  with assms(1) have zero: "c = CHR ''0'' \<longrightarrow> cs = []" by simp
  have tw: "takeWhile is_digit (cs @ rest) = cs"
  proof (cases rest)
    case Nil
    with dig show ?thesis by simp
  next
    case (Cons r rs)
    with assms(2) have "\<not> is_digit r" by simp
    with dig Cons show ?thesis by (simp add: takeWhile_append2 takeWhile_tail)
  qed
  have dw: "dropWhile is_digit (cs @ rest) = rest"
  proof (cases rest)
    case Nil
    with dig show ?thesis by simp
  next
    case (Cons r rs)
    with assms(2) have "\<not> is_digit r" by simp
    with dig Cons show ?thesis by (simp add: dropWhile_append2)
  qed
  show ?thesis
    unfolding parse_number_def Let_def tw dw
    using assms(2) zero val by auto
qed

lemma skip_ws_Cons: "\<not> is_ws c \<Longrightarrow> skip_ws (c # cs) = c # cs"
  by (simp add: skip_ws_def)

lemma parse_value_array:
  "parse_value (Suc n) (CHR ''['' # cs) =
     (if skip_ws cs \<noteq> [] \<and> hd (skip_ws cs) = CHR '']'' then Inr (JArr [], tl (skip_ws cs))
      else (case parse_elements n cs of Inl e \<Rightarrow> Inl e | Inr (xs, r) \<Rightarrow> Inr (JArr xs, r)))"
  by (simp add: skip_ws_Cons is_ws_def)

lemma parse_value_object:
  "parse_value (Suc n) (CHR ''{'' # cs) =
     (if skip_ws cs \<noteq> [] \<and> hd (skip_ws cs) = CHR ''}'' then Inr (JObj [], tl (skip_ws cs))
      else (case parse_members n cs of Inl e \<Rightarrow> Inl e | Inr (kvs, r) \<Rightarrow> Inr (JObj kvs, r)))"
  by (simp add: skip_ws_Cons is_ws_def)

lemma parse_value_string:
  "parse_value (Suc n) (dquote # cs) =
     (case parse_chars cs of Inl e \<Rightarrow> Inl e | Inr (str, r) \<Rightarrow> Inr (JStr str, r))"
  by (simp add: skip_ws_Cons is_ws_def dquote_def)

lemma parse_value_number:
  assumes "is_digit c"
  shows "parse_value (Suc n) (c # cs) = parse_number c cs"
proof -
  from assms have "\<not> is_ws c" "c \<noteq> CHR ''[''" "c \<noteq> CHR ''{''" "c \<noteq> dquote"
    by (auto simp: is_digit_def is_ws_def dquote_def)
  with assms show ?thesis by (simp add: skip_ws_Cons)
qed

lemma parse_value_literals:
  "parse_value (Suc n) (''null'' @ rest) = Inr (JNull, rest)"
  "parse_value (Suc n) (''true'' @ rest) = Inr (JBool True, rest)"
  "parse_value (Suc n) (''false'' @ rest) = Inr (JBool False, rest)"
  by (simp_all add: skip_ws_Cons is_ws_def dquote_def is_digit_def parse_literal_def)

lemma stringify_first:
  "\<exists>c cs. stringify j = c # cs \<and> \<not> is_ws c \<and> c \<noteq> CHR '']'' \<and> c \<noteq> CHR ''}''"
proof (cases j)
  case (JNum n)
  obtain c cs where "Number_toString n = c # cs" "is_digit c"
    using Number_toString_head [of n] by blast
  then show ?thesis using JNum by (auto simp: is_digit_def is_ws_def)
qed (auto simp: is_ws_def quote_def dquote_def)

lemma follows_value_delims:
  "follows_value (CHR '','' # r)" "follows_value (CHR '']'' # r)" "follows_value (CHR ''}'' # r)"
  "follows_value []"
  by (simp_all add: follows_value_def is_digit_def)

text \<open>The elements of an array, each read back by \<open>parse_value\<close>, up to the closing bracket.\<close>

lemma parse_elements_stringify:
  assumes each: "\<And>x n rest. x \<in> set xs \<Longrightarrow> size x < n \<Longrightarrow> follows_value rest \<Longrightarrow>
      parse_value n (stringify x @ rest) = Inr (x, rest)"
    and "xs \<noteq> []" "size_list size xs < n"
  shows "parse_elements n (stringify_elements xs @ CHR '']'' # rest) = Inr (xs, rest)"
  using assms
proof (induction xs arbitrary: n rule: induct_list012)
  case 1
  then show ?case by simp
next
  case (2 x)
  from "2.prems"(3) obtain m where n: "n = Suc m" and m: "size x < m" by (cases n) auto
  have "parse_value m (stringify x @ CHR '']'' # rest) = Inr (x, CHR '']'' # rest)"
    using "2.prems"(1) [of x m] m by (simp add: follows_value_delims)
  then show ?case by (simp add: n skip_ws_Cons is_ws_def)
next
  case (3 x y ys)
  from "3.prems"(3) obtain m where n: "n = Suc m" and m: "size x < m" "size_list size (y # ys) < m"
    by (cases n) auto
  have "parse_value m (stringify x @ CHR '','' # (stringify_elements (y # ys) @ CHR '']'' # rest))
      = Inr (x, CHR '','' # (stringify_elements (y # ys) @ CHR '']'' # rest))"
    using "3.prems"(1) [of x m] m(1) by (simp add: follows_value_delims)
  moreover have "parse_elements m (stringify_elements (y # ys) @ CHR '']'' # rest) = Inr (y # ys, rest)"
    using "3.IH"(2) [of m] "3.prems"(1) m(2) by simp
  ultimately show ?case by (simp add: n skip_ws_Cons is_ws_def)
qed


lemma parse_members_head:
  "parse_members (Suc m) (quote k @ CHR '':'' # t) =
     (case parse_value m t of
        Inl e \<Rightarrow> Inl e
      | Inr (v, r2) \<Rightarrow>
          (case skip_ws r2 of
             [] \<Rightarrow> Inl SyntaxError
           | d # r3 \<Rightarrow>
               if d = CHR '','' then
                 (case parse_members m r3 of
                    Inl e \<Rightarrow> Inl e
                  | Inr (kvs, r') \<Rightarrow> Inr ((k, v) # kvs, r'))
               else if d = CHR ''}'' then Inr ([(k, v)], r3)
               else Inl SyntaxError))"
proof -
  have "quote k @ CHR '':'' # t = dquote # (concat (map quote_char k) @ dquote # (CHR '':'' # t))"
    by (simp add: quote_def)
  moreover have "\<not> is_ws dquote" by (simp add: is_ws_def dquote_def)
  ultimately show ?thesis
    by (simp add: skip_ws_Cons parse_chars_quoted is_ws_def)
qed

lemma parse_members_stringify:
  assumes each: "\<And>k v n rest. (k, v) \<in> set kvs \<Longrightarrow> size v < n \<Longrightarrow> follows_value rest \<Longrightarrow>
      parse_value n (stringify v @ rest) = Inr (v, rest)"
    and "kvs \<noteq> []" "size_list (size_prod (\<lambda>_. 0) size) kvs < n"
  shows "parse_members n (stringify_members kvs @ CHR ''}'' # rest) = Inr (kvs, rest)"
  using assms
proof (induction kvs arbitrary: n rule: induct_list012)
  case 1
  then show ?case by simp
next
  case (2 kv)
  obtain k v where kv: "kv = (k, v)" by (cases kv)
  from "2.prems"(3) obtain m where n: "n = Suc m" and m: "size v < m" by (cases n) (auto simp: kv)
  have "parse_value m (stringify v @ CHR ''}'' # rest) = Inr (v, CHR ''}'' # rest)"
    using "2.prems"(1) [of k v m] m by (simp add: kv follows_value_delims)
  then show ?case
    using parse_members_head [of m k "stringify v @ CHR ''}'' # rest"]
    by (simp add: n kv skip_ws_Cons is_ws_def)
next
  case (3 kv kv' kvs)
  obtain k v where kv: "kv = (k, v)" by (cases kv)
  from "3.prems"(3) obtain m where n: "n = Suc m" and m: "size v < m"
    "size_list (size_prod (\<lambda>_. 0) size) (kv' # kvs) < m"
    by (cases n) (auto simp: kv)
  let ?t = "stringify_members (kv' # kvs) @ CHR ''}'' # rest"
  have "parse_value m (stringify v @ CHR '','' # ?t) = Inr (v, CHR '','' # ?t)"
    using "3.prems"(1) [of k v m] m(1) by (simp add: kv follows_value_delims)
  moreover have "parse_members m ?t = Inr (kv' # kvs, rest)"
  proof (rule "3.IH"(2))
    fix k v n rest
    assume "(k, v) \<in> set (kv' # kvs)" "size v < n" "follows_value rest"
    then show "parse_value n (stringify v @ rest) = Inr (v, rest)"
      using "3.prems"(1) [of k v n rest] by simp
  qed (use m(2) in simp_all)
  ultimately show ?case
    using parse_members_head [of m k "stringify v @ CHR '','' # ?t"]
    by (simp add: n kv skip_ws_Cons is_ws_def)
qed

lemma stringify_elements_first:
  "xs \<noteq> [] \<Longrightarrow> \<exists>c cs. stringify_elements xs = c # cs \<and> \<not> is_ws c \<and> c \<noteq> CHR '']''"
proof (induction xs rule: induct_list012)
  case (2 x)
  then show ?case using stringify_first [of x] by auto
next
  case (3 x y zs)
  then show ?case using stringify_first [of x] by auto
qed simp

lemma stringify_members_first:
  "kvs \<noteq> [] \<Longrightarrow> \<exists>c cs. stringify_members kvs = c # cs \<and> \<not> is_ws c \<and> c \<noteq> CHR ''}''"
proof (induction kvs rule: induct_list012)
  case (2 kv)
  then show ?case by (cases kv) (auto simp: quote_def dquote_def is_ws_def)
next
  case (3 kv kv' kvs)
  then show ?case by (cases kv) (auto simp: quote_def dquote_def is_ws_def)
qed simp

text \<open>
  \<open>parse_value\<close> reads back what \<open>stringify\<close> writes, whatever follows it, with fuel
  above the size of the value.
\<close>

lemma parse_value_stringify:
  "size j < n \<Longrightarrow> follows_value rest \<Longrightarrow> parse_value n (stringify j @ rest) = Inr (j, rest)"
proof (induction j arbitrary: n rest)
  case JNull
  then obtain m where "n = Suc m" by (cases n) auto
  then show ?case using parse_value_literals(1) [of m rest] by simp
next
  case (JBool b)
  then obtain m where "n = Suc m" by (cases n) auto
  then show ?case
    using parse_value_literals(2) [of m rest] parse_value_literals(3) [of m rest] by simp
next
  case (JNum k)
  then obtain m where n: "n = Suc m" by (cases n) auto
  obtain c cs where c: "Number_toString k = c # cs" "is_digit c"
    using Number_toString_head [of k] by blast
  then show ?case
    using parse_value_number [of c m "cs @ rest"] parse_number_Number_toString [OF c(1) JNum.prems(2)]
    by (simp add: n)
next
  case (JStr s)
  then obtain m where n: "n = Suc m" by (cases n) auto
  have "parse_value (Suc m) (dquote # (concat (map quote_char s) @ dquote # rest)) = Inr (JStr s, rest)"
    by (simp only: parse_value_string parse_chars_quoted) simp
  moreover have "stringify (JStr s) @ rest = dquote # (concat (map quote_char s) @ dquote # rest)"
    by (simp add: quote_def)
  ultimately show ?case by (simp only: n)
next
  case (JArr xs)
  from JArr.prems(1) obtain m where n: "n = Suc m" and m: "size_list size xs < m" by (cases n) auto
  show ?case
  proof (cases "xs = []")
    case True
    then show ?thesis by (simp add: n parse_value_array skip_ws_Cons is_ws_def del: parse_value.simps)
  next
    case False
    obtain c cs where c: "stringify_elements xs = c # cs" "\<not> is_ws c" "c \<noteq> CHR '']''"
      using stringify_elements_first [OF False] by blast
    have "parse_elements m (stringify_elements xs @ CHR '']'' # rest) = Inr (xs, rest)"
      using JArr.IH False m by (intro parse_elements_stringify) auto
    then show ?thesis
      using c by (simp add: n parse_value_array skip_ws_Cons del: parse_value.simps)
  qed
next
  case (JObj kvs)
  from JObj.prems(1) obtain m where n: "n = Suc m"
    and m: "size_list (size_prod (\<lambda>_. 0) size) kvs < m" by (cases n) auto
  show ?case
  proof (cases "kvs = []")
    case True
    then show ?thesis by (simp add: n parse_value_object skip_ws_Cons is_ws_def del: parse_value.simps)
  next
    case False
    obtain c cs where c: "stringify_members kvs = c # cs" "\<not> is_ws c" "c \<noteq> CHR ''}''"
      using stringify_members_first [OF False] by blast
    have "parse_members m (stringify_members kvs @ CHR ''}'' # rest) = Inr (kvs, rest)"
    proof (intro parse_members_stringify)
      fix k v n rest
      assume "(k, v) \<in> set kvs" "size v < n" "follows_value rest"
      then show "parse_value n (stringify v @ rest) = Inr (v, rest)"
        using JObj.IH [of "(k, v)" v n rest] by simp
    qed (use False m in auto)
    then show ?thesis
      using c by (simp add: n parse_value_object skip_ws_Cons del: parse_value.simps)
  qed
qed

lemma length_quote: "2 \<le> length (quote k)"
  by (simp add: quote_def)

lemma size_le_length_stringify:
  "size j \<le> length (stringify j)"
  "size_list size xs \<le> length (stringify_elements xs) + 1"
  "size_list (size_prod (\<lambda>_. 0) size) kvs \<le> length (stringify_members kvs) + 1"
proof (induction j and xs and kvs rule: stringify_stringify_elements_stringify_members.induct)
  case (11 k v)
  then show ?case using length_quote [of k] by simp
next
  case (12 k v kv kvs)
  then show ?case using length_quote [of k] by simp
qed simp_all

lemma JSON_parse_stringify: "JSON_parse (stringify j) = Inr j"
proof -
  have "size j < 2 * length (stringify j) + 1"
    using size_le_length_stringify(1) [of j] by simp
  then have "parse_value (2 * length (stringify j) + 1) (stringify j @ []) = Inr (j, [])"
    by (intro parse_value_stringify) (simp_all add: follows_value_delims)
  then show ?thesis by (simp add: JSON_parse_def skip_ws_def)
qed

lemma data_of_json_data_json: "data_of_json (data_json d) = Inr d"
  by (simp add: data_of_json_def data_json_def)

lemma block_of_json_block_json: "block_of_json (block_json b) = Inr b"
  by (simp add: block_of_json_def block_json_def field_def data_of_json_data_json new_Block_def Let_def)

lemma collect_map_Inr: "collect (map (\<lambda>x. Inr (f x)) xs) = Inr (map f xs)"
  by (induction xs) simp_all

lemma map_blocks_block_json: "map_blocks (map block_json c) = Inr c"
proof -
  have "JNull \<notin> set (map block_json c)" by (auto simp: block_json_def)
  moreover have "collect (map block_of_json (map block_json c)) = Inr c"
    using collect_map_Inr [of id c] by (simp add: block_of_json_block_json comp_def)
  ultimately show ?thesis by (simp add: map_blocks_def)
qed

lemma loadChain_stringify: "loadChain (Some (stringify (chain_json c))) = Inr (Some c)"
  by (simp add: loadChain_def JSON_parse_stringify chain_json_def map_blocks_block_json
      del: stringify.simps)
    (simp add: chain_json_def)

lemma JSON_parse_truncated: "JSON_parse ''[{'' = Inl SyntaxError"
  by (simp add: JSON_parse_def eval_nat_numeral skip_ws_def is_ws_def dquote_def is_digit_def
      parse_literal_def)

subsection \<open>The fuel of the parser is enough\<close>

lemma skip_ws_shorter: "skip_ws s = c # cs \<Longrightarrow> length cs < length s"
proof -
  assume a: "skip_ws s = c # cs"
  have "length (skip_ws s) \<le> length s" by (simp add: skip_ws_def length_dropWhile_le)
  with a show ?thesis by simp
qed

lemma parse_literal_shorter:
  "parse_literal s \<noteq> Inl OutOfFuel \<and> (\<forall>v r. parse_literal s = Inr (v, r) \<longrightarrow> length r < length s)"
proof -
  have a: "4 \<le> length s" if h: "take 4 s = ''true''"
  proof -
    have "length (take 4 s) = length ''true''" using h by (rule arg_cong)
    then show ?thesis by simp
  qed
  have b: "5 \<le> length s" if h: "take 5 s = ''false''"
  proof -
    have "length (take 5 s) = length ''false''" using h by (rule arg_cong)
    then show ?thesis by simp
  qed
  have c: "4 \<le> length s" if h: "take 4 s = ''null''"
  proof -
    have "length (take 4 s) = length ''null''" using h by (rule arg_cong)
    then show ?thesis by simp
  qed
  show ?thesis
  proof (cases "take 4 s = ''true''")
    case True
    with a show ?thesis by (simp add: parse_literal_def)
  next
    case nt: False
    show ?thesis
    proof (cases "take 5 s = ''false''")
      case True
      with nt b show ?thesis by (simp add: parse_literal_def)
    next
      case nf: False
      show ?thesis
      proof (cases "take 4 s = ''null''")
        case True
        with nt nf c show ?thesis by (simp add: parse_literal_def)
      next
        case False
        with nt nf show ?thesis by (simp add: parse_literal_def)
      qed
    qed
  qed
qed

lemma parse_number_shorter:
  "parse_number c cs \<noteq> Inl OutOfFuel \<and> (\<forall>v r. parse_number c cs = Inr (v, r) \<longrightarrow> length r \<le> length cs)"
  by (auto simp: parse_number_def Let_def length_dropWhile_le split: if_splits)

lemma parse_chars_shorter:
  "parse_chars s \<noteq> Inl OutOfFuel \<and> (\<forall>k r. parse_chars s = Inr (k, r) \<longrightarrow> length r < length s)"
proof (induction s rule: parse_chars.induct)
  case 1
  then show ?case by simp
next
  case (2 c cs)
  show ?case
  proof (cases "c = dquote")
    case True
    then show ?thesis by simp
  next
    case nq: False
    show ?thesis
    proof (cases "c = backslash")
      case nb: False
      show ?thesis
      proof (cases "(of_char c :: nat) < 32")
        case True
        with nq nb show ?thesis by simp
      next
        case False
        with nq nb "2.IH"(3) show ?thesis
          by (cases "parse_chars cs") auto
      qed
    next
      case bs: True
      show ?thesis
      proof (cases "cs = []")
        case True
        with nq bs show ?thesis by simp
      next
        case ne: False
        show ?thesis
        proof (cases "hd cs = CHR ''u''")
          case u: True
          show ?thesis
          proof (cases "length cs < 5")
            case True
            with nq bs ne u show ?thesis by simp
          next
            case l5: False
            show ?thesis
            proof (cases "hex4 (cs ! 1) (cs ! 2) (cs ! 3) (cs ! 4)")
              case None
              with nq bs ne u l5 show ?thesis by simp
            next
              case (Some n)
              show ?thesis
              proof (cases "n < 256")
                case False
                with nq bs ne u l5 Some show ?thesis by simp
              next
                case True
                have ih: "parse_chars (drop 5 cs) \<noteq> Inl OutOfFuel \<and>
                  (\<forall>k r. parse_chars (drop 5 cs) = Inr (k, r) \<longrightarrow> length r < length (drop 5 cs))"
                  using "2.IH"(1) [of n] nq bs ne u l5 Some True by simp
                with nq bs ne u l5 Some True show ?thesis
                  by (cases "parse_chars (drop 5 cs)") auto
              qed
            qed
          qed
        next
          case nu: False
          show ?thesis
          proof (cases "simple_escape (hd cs)")
            case None
            with nq bs ne nu show ?thesis by simp
          next
            case (Some x)
            have len: "length (tl cs) < length cs" using ne by (cases cs) simp_all
            have ih: "parse_chars (tl cs) \<noteq> Inl OutOfFuel \<and>
                (\<forall>k r. parse_chars (tl cs) = Inr (k, r) \<longrightarrow> length r < length (tl cs))"
              using "2.IH"(2) [of x] nq bs ne nu Some by simp
            with nq bs ne nu Some len show ?thesis
              by (cases "parse_chars (tl cs)") auto
          qed
        qed
      qed
    qed
  qed
qed

lemma length_skip_ws: "length (skip_ws s) \<le> length s"
  by (simp add: skip_ws_def length_dropWhile_le)

lemma parse_fuel:
  "(2 * length s < n \<longrightarrow>
      parse_value n s \<noteq> Inl OutOfFuel
      \<and> (\<forall>v r. parse_value n s = Inr (v, r) \<longrightarrow> length r < length s))
   \<and> (2 * length s + 1 < n \<longrightarrow>
      parse_elements n s \<noteq> Inl OutOfFuel
      \<and> (\<forall>vs r. parse_elements n s = Inr (vs, r) \<longrightarrow> length r < length s))
   \<and> (2 * length s < n \<longrightarrow>
      parse_members n s \<noteq> Inl OutOfFuel
      \<and> (\<forall>kvs r. parse_members n s = Inr (kvs, r) \<longrightarrow> length r < length s))"
proof (induction n arbitrary: s)
  case 0
  show ?case by simp
next
  case (Suc n)
  have ihv: "parse_value n t \<noteq> Inl OutOfFuel
      \<and> (\<forall>v r. parse_value n t = Inr (v, r) \<longrightarrow> length r < length t)" if "2 * length t < n" for t
    using Suc.IH [of t] that by blast
  have ihe: "parse_elements n t \<noteq> Inl OutOfFuel
      \<and> (\<forall>vs r. parse_elements n t = Inr (vs, r) \<longrightarrow> length r < length t)" if "2 * length t + 1 < n" for t
    using Suc.IH [of t] that by blast
  have ihm: "parse_members n t \<noteq> Inl OutOfFuel
      \<and> (\<forall>kvs r. parse_members n t = Inr (kvs, r) \<longrightarrow> length r < length t)" if "2 * length t < n" for t
    using Suc.IH [of t] that by blast
  have V: "parse_value (Suc n) s \<noteq> Inl OutOfFuel
      \<and> (\<forall>v r. parse_value (Suc n) s = Inr (v, r) \<longrightarrow> length r < length s)"
    if f: "2 * length s < Suc n"
  proof (cases "skip_ws s")
    case Nil
    then show ?thesis by simp
  next
    case (Cons c cs)
    have lcs: "length cs < length s" using Cons by (rule skip_ws_shorter)
    have lws: "length (tl (skip_ws cs)) < length s"
      using length_skip_ws [of cs] lcs by simp
    consider (arr) "c = CHR ''[''" | (obj) "c \<noteq> CHR ''[''" "c = CHR ''{''"
      | (str) "c \<noteq> CHR ''[''" "c \<noteq> CHR ''{''" "c = dquote"
      | (num) "c \<noteq> CHR ''[''" "c \<noteq> CHR ''{''" "c \<noteq> dquote" "is_digit c"
      | (neg) "c \<noteq> CHR ''[''" "c \<noteq> CHR ''{''" "c \<noteq> dquote" "\<not> is_digit c" "c = CHR ''-''"
      | (lit) "c \<noteq> CHR ''[''" "c \<noteq> CHR ''{''" "c \<noteq> dquote" "\<not> is_digit c" "c \<noteq> CHR ''-''"
      by blast
    then show ?thesis
    proof cases
      case arr
      have "2 * length cs + 1 < n" using f lcs by simp
      from ihe [OF this] show ?thesis
        using Cons arr lcs lws by (cases "parse_elements n cs") auto
    next
      case obj
      have "2 * length cs < n" using f lcs by simp
      from ihm [OF this] show ?thesis
        using Cons obj lcs lws by (cases "parse_members n cs") auto
    next
      case str
      from parse_chars_shorter [of cs] show ?thesis
        using Cons str lcs by (cases "parse_chars cs") auto
    next
      case num
      from parse_number_shorter [of c cs] show ?thesis
        using Cons num lcs by (cases "parse_number c cs") auto
    next
      case neg
      then show ?thesis using Cons by simp
    next
      case lit
      have "length (c # cs) \<le> length s" using lcs by simp
      with parse_literal_shorter [of "c # cs"] show ?thesis
        using Cons lit by (cases "parse_literal (c # cs)") auto
    qed
  qed
  have E: "parse_elements (Suc n) s \<noteq> Inl OutOfFuel
      \<and> (\<forall>vs r. parse_elements (Suc n) s = Inr (vs, r) \<longrightarrow> length r < length s)"
    if f: "2 * length s + 1 < Suc n"
  proof (cases "parse_value n s")
    case (Inl e)
    with ihv [of s] f show ?thesis by simp
  next
    case (Inr p)
    obtain v r where p: "p = (v, r)" by (cases p)
    have lr: "length r < length s" using ihv [of s] f Inr p by simp
    show ?thesis
    proof (cases "skip_ws r")
      case Nil
      with Inr p show ?thesis by simp
    next
      case (Cons c cs)
      have lcs: "length cs < length r" using Cons by (rule skip_ws_shorter)
      have "2 * length cs + 1 < n" using f lr lcs by simp
      from ihe [OF this] show ?thesis
        using Inr p Cons lr lcs by (cases "parse_elements n cs") auto
    qed
  qed
  have M: "parse_members (Suc n) s \<noteq> Inl OutOfFuel
      \<and> (\<forall>kvs r. parse_members (Suc n) s = Inr (kvs, r) \<longrightarrow> length r < length s)"
    if f: "2 * length s < Suc n"
  proof (cases "skip_ws s")
    case Nil
    then show ?thesis by simp
  next
    case (Cons q cs)
    have lcs: "length cs < length s" using Cons by (rule skip_ws_shorter)
    show ?thesis
    proof (cases "q = dquote")
      case False
      with Cons show ?thesis by simp
    next
      case q: True
      show ?thesis
      proof (cases "parse_chars cs")
        case (Inl e)
        with parse_chars_shorter [of cs] Cons q show ?thesis by simp
      next
        case (Inr p)
        obtain k r where p: "p = (k, r)" by (cases p)
        have lr: "length r < length cs" using parse_chars_shorter [of cs] Inr p by simp
        show ?thesis
        proof (cases "skip_ws r")
          case Nil
          with Cons q Inr p show ?thesis by simp
        next
          case c: (Cons c r1)
          have lr1: "length r1 < length r" using c by (rule skip_ws_shorter)
          show ?thesis
          proof (cases "c = CHR '':''")
            case False
            with Cons q Inr p c show ?thesis by simp
          next
            case colon: True
            have f1: "2 * length r1 < n" using f lcs lr lr1 by simp
            show ?thesis
            proof (cases "parse_value n r1")
              case (Inl e)
              with ihv [OF f1] Cons q Inr p c colon show ?thesis by simp
            next
              case v: (Inr pv)
              obtain v r2 where pv: "pv = (v, r2)" by (cases pv)
              have lr2: "length r2 < length r1" using ihv [OF f1] v pv by simp
              show ?thesis
              proof (cases "skip_ws r2")
                case Nil
                with Cons q Inr p c colon v pv show ?thesis by simp
              next
                case d: (Cons d r3)
                have lr3: "length r3 < length r2" using d by (rule skip_ws_shorter)
                have "2 * length r3 < n" using f1 lr2 lr3 by simp
                from ihm [OF this] show ?thesis
                  using Cons q Inr p c colon v pv d lcs lr lr1 lr2 lr3
                  by (cases "parse_members n r3") auto
              qed
            qed
          qed
        qed
      qed
    qed
  qed
  from V E M show ?case by blast
qed

text \<open>\<open>JSON_parse\<close> never stops for lack of fuel.\<close>

lemma JSON_parse_fuel: "JSON_parse s \<noteq> Inl OutOfFuel"
proof -
  have "parse_value (2 * length s + 1) s \<noteq> Inl OutOfFuel"
    using parse_fuel [of s "2 * length s + 1"] by simp
  then show ?thesis
    by (cases "parse_value (2 * length s + 1) s")
      (auto simp: JSON_parse_def simp del: parse_value.simps split: if_splits)
qed

section \<open>The claims\<close>

text \<open>
  C1 on the code. The two records below agree on \<open>index\<close>, \<open>previousHash\<close>,
  \<open>timestamp\<close> and on the student and the day of \<open>data\<close>; one is marked present, the
  other absent. \<open>calculateHash\<close> gives both the same string: the position and the
  previous fingerprint fill the 48 bytes that the 64 characters kept by \<open>substring\<close>
  encode, and the status is not among them.
\<close>

theorem calculateHash_status_example:
  "index example_first = 1
   \<and> previousHash example_first
       = ''MDAxNzAwMDAwMDAwMDAweyJzdHVkZW50SWQiOiJOL0EiLCJzdGF0dXMiOiJHZW5l''
   \<and> timestamp example_first = 1700000000001
   \<and> data example_first = \<lparr>studentId = ''S1'', status = ''present'', date = ''2024-01-01''\<rparr>
   \<and> index tampered_first = index example_first
   \<and> previousHash tampered_first = previousHash example_first
   \<and> timestamp tampered_first = timestamp example_first
   \<and> data tampered_first = \<lparr>studentId = ''S1'', status = ''absent'', date = ''2024-01-01''\<rparr>
   \<and> calculateHash example_first
       = ''MU1EQXhOekF3TURBd01EQXdNREF3ZXlKemRIVmtaVzUwU1dRaU9pSk9MMEVpTENK''
   \<and> calculateHash tampered_first
       = ''MU1EQXhOekF3TURBd01EQXdNREF3ZXlKemRIVmtaVzUwU1dRaU9pSk9MMEVpTENK''"
  by (simp add: calculateHash_example_first calculateHash_tampered_first_value)
    (simp add: tampered_first_def example_first_def new_Block_fields hash_example_genesis)

text \<open>
  C2 on the code: \<open>example_chain\<close> is valid, and it stays valid when the status of its
  second record (not the last one) is turned from present to absent with no fingerprint
  recomputed. The loop of \<open>isChainValid\<close> reports nothing, for this record or any other.
\<close>

theorem tampering_not_detected_example:
  "isChainValid example_chain
   \<and> length example_chain = 3
   \<and> example_chain ! 1 = example_first
   \<and> status (data example_first) = ''present''
   \<and> tampered_first = example_first\<lparr>data := (data example_first)\<lparr>status := ''absent''\<rparr>\<rparr>
   \<and> validate_from 1 (example_chain[1 := tampered_first]) = None
   \<and> isChainValid (example_chain[1 := tampered_first])"
proof -
  have "isChainValid (example_chain[1 := tampered_first])"
    unfolding isChainValid_iff
  proof (intro allI impI)
    fix k
    assume "1 \<le> k \<and> k < length (example_chain[1 := tampered_first])"
    then have "k = 1 \<or> k = 2" by (auto simp: example_chain_def)
    then show "hash (example_chain[1 := tampered_first] ! k)
          = calculateHash (example_chain[1 := tampered_first] ! k)
        \<and> previousHash (example_chain[1 := tampered_first] ! k)
          = hash (example_chain[1 := tampered_first] ! (k - 1))"
      by (auto simp: example_chain_def calculateHash_tampered_first tampered_first_fields
          example_first_def example_second_def hash_new_Block new_Block_fields)
  qed
  then show ?thesis
    using example_chain_valid
    by (simp add: isChainValid_def tampered_first_fields)
      (simp add: example_chain_def tampered_first_def)
qed

text \<open>
  C7: on a chain that has a latest record, \<open>addBlock\<close> returns, and the new latest record
  has the position of the old one plus one and the fingerprint of the old one as its
  \<open>previousHash\<close>.
\<close>

theorem addBlock_links:
  assumes "chain st \<noteq> []"
  shows "\<exists>st' old new. addBlock d now st = Inr st'
           \<and> getLatestBlock (chain st) = Some old
           \<and> getLatestBlock (chain st') = Some new
           \<and> index new = index old + 1
           \<and> previousHash new = hash old"
  using assms
  by (simp add: addBlock_def getLatestBlock_last saveChain_def new_Block_def Let_def)

theorem addBlock_links_witness:
  "chain \<lparr>chain = example_chain, localStorage = None\<rparr> \<noteq> []
   \<and> (\<exists>st' old new.
        addBlock \<lparr>studentId = ''S3'', status = ''present'', date = ''2024-01-01''\<rparr> 1700000000003
          \<lparr>chain = example_chain, localStorage = None\<rparr> = Inr st'
        \<and> getLatestBlock (chain \<lparr>chain = example_chain, localStorage = None\<rparr>) = Some old
        \<and> getLatestBlock (chain st') = Some new
        \<and> index new = index old + 1
        \<and> previousHash new = hash old)"
proof -
  have h: "chain \<lparr>chain = example_chain, localStorage = None\<rparr> \<noteq> []"
    by (simp add: example_chain_def)
  show ?thesis
    using h addBlock_links [OF h] by blast
qed

text \<open>
  C10: a valid chain stays valid when the time stamp and the payload of its first record
  are replaced and its stored fingerprint is kept: the loop starts at position 1 and reads
  nothing of the first record but that fingerprint.
\<close>

theorem genesis_tamper_undetected:
  assumes "isChainValid (g # rest)"
  shows "isChainValid (g\<lparr>timestamp := t, data := d\<rparr> # rest)"
  using assms validate_from_head [of "g\<lparr>timestamp := t, data := d\<rparr>" g 1 rest]
  by (simp add: isChainValid_def)

theorem genesis_tamper_undetected_witness:
  "isChainValid (example_genesis # [example_first, example_second])
   \<and> isChainValid (example_genesis\<lparr>timestamp := 0,
        data := \<lparr>studentId = ''S9'', status = ''present'', date = ''1999-12-31''\<rparr>\<rparr>
          # [example_first, example_second])"
proof -
  have h: "isChainValid (example_genesis # [example_first, example_second])"
    using example_chain_valid by (simp add: example_chain_def)
  show ?thesis
    using h genesis_tamper_undetected [OF h] by blast
qed

text \<open>
  C4: when the chain holds a record of the student on that day, \<open>recordAttendance\<close>
  returns the state as it was (the chain and the stored text untouched) with a message
  that gives the status of such a record, the first one found. Both buttons do so, the
  input being trimmed and not empty.
\<close>

theorem duplicate_rejected:
  assumes "b \<in> set (chain st)" "studentId (data b) = sid" "date (data b) = today"
  shows "\<exists>existing. existing \<in> set (chain st)
           \<and> studentId (data existing) = sid \<and> date (data existing) = today
           \<and> recordAttendance p sid today now st =
               Inr (st, (''Attendance for Student ID '' @ sid @ '' on today ('' @ today
                           @ '') has already been marked as ''
                           @ status (data existing) @ ''.'', Info))
           \<and> (trim input = sid \<and> sid \<noteq> [] \<longrightarrow>
                 markPresentBtn_click input today now st = recordAttendance Present sid today now st
               \<and> markAbsentBtn_click input today now st = recordAttendance Absent sid today now st)"
proof -
  obtain e where e: "find (\<lambda>block. date (data block) = today \<and> studentId (data block) = sid) (chain st) = Some e"
    "e \<in> set (chain st)" "date (data e) = today \<and> studentId (data e) = sid"
    using find_first_match [of b "chain st" "\<lambda>block. date (data block) = today \<and> studentId (data block) = sid"] assms
    by auto
  then show ?thesis
    by (intro exI [of _ e])
      (simp add: recordAttendance_def markPresentBtn_click_def markAbsentBtn_click_def
        mark_click_def Let_def)
qed

theorem duplicate_rejected_witness:
  "example_first \<in> set (chain \<lparr>chain = example_chain, localStorage = None\<rparr>)
   \<and> studentId (data example_first) = ''S1'' \<and> date (data example_first) = ''2024-01-01''
   \<and> recordAttendance Absent ''S1'' ''2024-01-01'' 1700000000009
        \<lparr>chain = example_chain, localStorage = None\<rparr>
      = Inr (\<lparr>chain = example_chain, localStorage = None\<rparr>,
          (''Attendance for Student ID S1 on today (2024-01-01) has already been marked as present.'',
           Info))"
proof -
  let ?st = "\<lparr>chain = example_chain, localStorage = None\<rparr>"
  have h: "example_first \<in> set (chain ?st)" by (simp add: example_chain_def)
  obtain e where e: "e \<in> set (chain ?st)" "studentId (data e) = ''S1''"
    "recordAttendance Absent ''S1'' ''2024-01-01'' 1700000000009 ?st =
       Inr (?st, (''Attendance for Student ID '' @ ''S1'' @ '' on today ('' @ ''2024-01-01''
                   @ '') has already been marked as '' @ status (data e) @ ''.'', Info))"
    using duplicate_rejected [OF h example_first_data(1) example_first_data(2), of Absent 1700000000009 "[]"]
    by blast
  have "e = example_first"
    using e(1,2)
    by (auto simp: example_chain_def example_genesis_def example_second_def createGenesisBlock_def
        genesis_data_def new_Block_fields)
  with e(3) h show ?thesis by (simp add: example_first_data)
qed

text \<open>
  C5: from the chain of an empty store, every sequence of clicks on the three buttons runs
  to the end, and in the chain it leaves no two records after the first agree on both the
  student and the day.
\<close>

theorem one_entry_per_day_reachable:
  "\<exists>s0 st. new_Blockchain t0 None = Inr s0 \<and> run_clicks cs s0 = Inr st
      \<and> one_entry_per_day (chain st)"
proof -
  let ?s0 = "\<lparr>chain = [createGenesisBlock t0], localStorage = None\<rparr>"
  obtain st where "run_clicks cs ?s0 = Inr st"
    "distinct (map (\<lambda>b. (studentId (data b), date (data b))) (tl (chain st)))"
    using run_clicks_inv [of ?s0 cs] by auto
  then show ?thesis
    using new_Blockchain_empty_store [of t0] one_entry_per_day_distinct by blast
qed

theorem one_entry_per_day_reachable_witness:
  "\<exists>s0 st. new_Blockchain 1700000000000 None = Inr s0 \<and> run_clicks example_clicks s0 = Inr st
      \<and> one_entry_per_day (chain st) \<and> chain st = example_chain"
proof -
  obtain s0 st where a: "new_Blockchain 1700000000000 None = Inr s0"
    "run_clicks example_clicks s0 = Inr st" "one_entry_per_day (chain st)"
    using one_entry_per_day_reachable [of 1700000000000 example_clicks] by blast
  from a(1) have "s0 = \<lparr>chain = [example_genesis], localStorage = None\<rparr>"
    by (simp add: new_Blockchain_empty_store example_genesis_def)
  with a(2) run_example_clicks have "chain st = example_chain" by auto
  with a show ?thesis by blast
qed

text \<open>
  C9: after \<open>clearChain\<close> the chain is one new first record (position 0, previous
  fingerprint \<open>0\<close>, the reserved payload), the store holds the text of that chain, which
  loads as that chain, and an append gives what it gives on the chain of an empty store.
\<close>

theorem clearChain_resets:
  "chain (clearChain now st) = [createGenesisBlock now]
   \<and> length (chain (clearChain now st)) = 1
   \<and> index (createGenesisBlock now) = 0
   \<and> previousHash (createGenesisBlock now) = ''0''
   \<and> data (createGenesisBlock now) = \<lparr>studentId = ''N/A'', status = ''Genesis Block'', date = ''N/A''\<rparr>
   \<and> hash (createGenesisBlock now) = calculateHash (createGenesisBlock now)
   \<and> localStorage (clearChain now st) = Some (stringify (chain_json [createGenesisBlock now]))
   \<and> loadChain (localStorage (clearChain now st)) = Inr (Some [createGenesisBlock now])
   \<and> new_Blockchain now None = Inr \<lparr>chain = [createGenesisBlock now], localStorage = None\<rparr>
   \<and> addBlock d t (clearChain now st)
       = addBlock d t \<lparr>chain = [createGenesisBlock now], localStorage = None\<rparr>"
proof -
  have "loadChain (localStorage (clearChain now st)) = Inr (Some [createGenesisBlock now])"
    by (simp add: clearChain_def saveChain_def loadChain_stringify)
  moreover have "new_Blockchain now None = Inr \<lparr>chain = [createGenesisBlock now], localStorage = None\<rparr>"
    by (simp add: new_Blockchain_def loadChain_def)
  moreover have "addBlock d t (clearChain now st)
       = addBlock d t \<lparr>chain = [createGenesisBlock now], localStorage = None\<rparr>"
    by (simp add: clearChain_def saveChain_def addBlock_def getLatestBlock_def Let_def)
  moreover have "chain (clearChain now st) = [createGenesisBlock now]"
    "localStorage (clearChain now st) = Some (stringify (chain_json [createGenesisBlock now]))"
    by (simp_all add: clearChain_def saveChain_def)
  moreover have "index (createGenesisBlock now) = 0" "previousHash (createGenesisBlock now) = ''0''"
    "data (createGenesisBlock now) = \<lparr>studentId = ''N/A'', status = ''Genesis Block'', date = ''N/A''\<rparr>"
    "hash (createGenesisBlock now) = calculateHash (createGenesisBlock now)"
    by (simp_all add: createGenesisBlock_def new_Block_fields genesis_data_def hash_new_Block)
  ultimately show ?thesis by simp
qed

text \<open>
  C6: over the records after the first, 17 present and 3 absent give 85 percent, shown as
  \<open>85.00%\<close>, and \<open>Eligible!\<close>; 16 present and 4 absent give 80 percent and
  \<open>Not Eligible\<close>; no record gives 0 percent and \<open>N/A\<close>. The page shows \<open>Eligible!\<close>
  exactly when there is a record and the percentage is at least 85, and \<open>N/A\<close> exactly
  when there is none.
\<close>

theorem summary_boundary:
  "(length (drop 1 c) = 20
      \<and> length (filter (\<lambda>b. status (data b) = ''present'') (drop 1 c)) = 17
      \<and> length (filter (\<lambda>b. status (data b) = ''absent'') (drop 1 c)) = 3
    \<longrightarrow> updateAttendanceSummary c =
          \<lparr>totalDays = 20, presentDays = 17, absentDays = 3, attendancePercentage = 85,
             percentageText = ''85.00%'', eligibilityStatus = ''Eligible!''\<rparr>)
   \<and> (length (drop 1 c) = 20
      \<and> length (filter (\<lambda>b. status (data b) = ''present'') (drop 1 c)) = 16
      \<and> length (filter (\<lambda>b. status (data b) = ''absent'') (drop 1 c)) = 4
    \<longrightarrow> updateAttendanceSummary c =
          \<lparr>totalDays = 20, presentDays = 16, absentDays = 4, attendancePercentage = 80,
             percentageText = ''80.00%'', eligibilityStatus = ''Not Eligible''\<rparr>)
   \<and> (length (drop 1 c) = 0
    \<longrightarrow> updateAttendanceSummary c =
          \<lparr>totalDays = 0, presentDays = 0, absentDays = 0, attendancePercentage = 0,
             percentageText = ''0.00%'', eligibilityStatus = ''N/A''\<rparr>)
   \<and> (eligibilityStatus (updateAttendanceSummary c) = ''Eligible!'' \<longleftrightarrow>
        totalDays (updateAttendanceSummary c) > 0
        \<and> attendancePercentage (updateAttendanceSummary c) \<ge> 85)
   \<and> (eligibilityStatus (updateAttendanceSummary c) = ''N/A'' \<longleftrightarrow>
        totalDays (updateAttendanceSummary c) = 0)"
  by (simp add: updateAttendanceSummary_def Let_def foldl_count pct_17_20 pct_16_20
      toFixed2_85 toFixed2_80 toFixed2_0)

theorem summary_boundary_witness:
  "updateAttendanceSummary (attendance_days 17) =
      \<lparr>totalDays = 20, presentDays = 17, absentDays = 3, attendancePercentage = 85,
         percentageText = ''85.00%'', eligibilityStatus = ''Eligible!''\<rparr>
   \<and> updateAttendanceSummary (attendance_days 16) =
      \<lparr>totalDays = 20, presentDays = 16, absentDays = 4, attendancePercentage = 80,
         percentageText = ''80.00%'', eligibilityStatus = ''Not Eligible''\<rparr>
   \<and> updateAttendanceSummary [createGenesisBlock 1700000000000] =
      \<lparr>totalDays = 0, presentDays = 0, absentDays = 0, attendancePercentage = 0,
         percentageText = ''0.00%'', eligibilityStatus = ''N/A''\<rparr>"
proof -
  have a: "length (drop 1 (attendance_days 17)) = 20
      \<and> length (filter (\<lambda>b. status (data b) = ''present'') (drop 1 (attendance_days 17))) = 17
      \<and> length (filter (\<lambda>b. status (data b) = ''absent'') (drop 1 (attendance_days 17))) = 3"
    by (simp add: attendance_days_def upt_1_21 new_Block_fields)
  have b: "length (drop 1 (attendance_days 16)) = 20
      \<and> length (filter (\<lambda>b. status (data b) = ''present'') (drop 1 (attendance_days 16))) = 16
      \<and> length (filter (\<lambda>b. status (data b) = ''absent'') (drop 1 (attendance_days 16))) = 4"
    by (simp add: attendance_days_def upt_1_21 new_Block_fields)
  have c: "length (drop 1 [createGenesisBlock 1700000000000]) = 0" by simp
  show ?thesis
    using a b c summary_boundary [of "attendance_days 17"] summary_boundary [of "attendance_days 16"]
      summary_boundary [of "[createGenesisBlock 1700000000000]"]
    by blast
qed

text \<open>
  C8: what \<open>saveChain\<close> writes, \<open>loadChain\<close> reads back as the chain it was: the same
  records in the same order, each with its position, time stamp, payload, previous
  fingerprint and fingerprint as stored. This holds for every chain, so for those built
  by appends and resets; the constructor then starts from that chain.
\<close>

theorem load_after_save:
  "loadChain (localStorage (saveChain st)) = Inr (Some (chain st))
   \<and> new_Blockchain now (localStorage (saveChain st))
        = Inr \<lparr>chain = chain st, localStorage = localStorage (saveChain st)\<rparr>"
  by (simp add: saveChain_def loadChain_stringify new_Blockchain_def)

text \<open>
  C3, as the code has it. When the stored value is absent or the empty string, the
  constructor returns with a chain of exactly one new first record. When it is a
  non-empty text that \<open>JSON.parse\<close> rejects, the constructor raises that
  \<open>SyntaxError\<close> and builds no chain.
\<close>

theorem new_Blockchain_absent_or_unreadable:
  "(stored = None \<or> stored = Some [] \<longrightarrow>
      (\<exists>st. new_Blockchain now stored = Inr st \<and> chain st = [createGenesisBlock now]
         \<and> length (chain st) = 1))
   \<and> (stored = Some storedChain \<and> storedChain \<noteq> [] \<and> JSON_parse storedChain = Inl SyntaxError \<longrightarrow>
      new_Blockchain now stored = Inl SyntaxError)"
  by (auto simp: new_Blockchain_def loadChain_def)

theorem new_Blockchain_absent_or_unreadable_witness:
  "(\<exists>st. new_Blockchain 1700000000000 None = Inr st
        \<and> chain st = [createGenesisBlock 1700000000000] \<and> length (chain st) = 1)
   \<and> (\<exists>st. new_Blockchain 1700000000000 (Some []) = Inr st
        \<and> chain st = [createGenesisBlock 1700000000000] \<and> length (chain st) = 1)
   \<and> JSON_parse ''[{'' = Inl SyntaxError
   \<and> new_Blockchain 1700000000000 (Some ''[{'') = Inl SyntaxError"
  using new_Blockchain_absent_or_unreadable [where stored = None and now = 1700000000000]
    new_Blockchain_absent_or_unreadable [where stored = "Some []" and now = 1700000000000]
    new_Blockchain_absent_or_unreadable [where stored = "Some ''[{''" and storedChain = "''[{''" and now = 1700000000000]
    JSON_parse_truncated
  by simp

text \<open>
  C3 as it is written fails twice: on the stored text \<open>[{\<close> the constructor raises, and
  on an empty store it returns the one-record chain with the store still empty.
\<close>

theorem new_Blockchain_counterexample:
  "new_Blockchain 1700000000000 (Some ''[{'') = Inl SyntaxError
   \<and> new_Blockchain 1700000000000 None
       = Inr \<lparr>chain = [createGenesisBlock 1700000000000], localStorage = None\<rparr>"
  by (simp add: new_Blockchain_def loadChain_def JSON_parse_truncated)

end
